theory Spec2Isabelle
  imports Main "HOL-Library.Multiset" "HOL-Library.Log_Nat"
begin

section \<open>Faults\<close>

text \<open>
  The C code has no error returns. What can go wrong is undefined behaviour (a division
  by zero in \<^verbatim>\<open>rand() % *psize\<close>, an access outside an array, a signed overflow, a
  conversion to \<^verbatim>\<open>int\<close> of a value that does not fit) and a loop that does not end.
  Each is a value of \<open>fault\<close>; a function that can meet one returns \<open>fault + 'a\<close>.
\<close>

datatype fault = DivideByZero | OutOfBounds | SignedOverflow | BadConversion | OutOfFuel

definition INT_MAX :: int where
  "INT_MAX = 2147483647"

definition INT_MIN :: int where
  "INT_MIN = - 2147483648"

section \<open>Actions (action.c)\<close>

text \<open>
  \<^verbatim>\<open>action.h\<close> is not among the sources. The code uses the enumerators
  \<^verbatim>\<open>FOLD\<close>, \<^verbatim>\<open>CALL\<close>, \<^verbatim>\<open>BET\<close> and \<^verbatim>\<open>ACTION_UNSET\<close> and the fields
  \<^verbatim>\<open>type\<close>, \<^verbatim>\<open>amount\<close> (an \<^verbatim>\<open>int\<close>, printed with \<^verbatim>\<open>%d\<close>) and
  \<^verbatim>\<open>string\<close> (the buffer \<^verbatim>\<open>sprintf\<close> writes, taken to be large enough for the
  longest encoding, 34 characters and the terminator).
\<close>

datatype ActionType = FOLD | CALL | BET | ACTION_UNSET

record Action =
  type :: ActionType
  amount :: int
  string :: string

definition ActionSetFold :: "Action \<Rightarrow> Action" where
  "ActionSetFold action = action\<lparr>type := FOLD, amount := 0\<rparr>"

definition ActionSetCall :: "Action \<Rightarrow> Action" where
  "ActionSetCall action = action\<lparr>type := CALL, amount := 0\<rparr>"

definition ActionSetBet :: "Action \<Rightarrow> int \<Rightarrow> Action" where
  "ActionSetBet action n = action\<lparr>type := BET, amount := n\<rparr>"

subsection \<open>The conversion \<^verbatim>\<open>%d\<close>\<close>

definition digit_char :: "nat \<Rightarrow> char" where
  "digit_char d = char_of (48 + d)"

fun dec_nat :: "nat \<Rightarrow> string" where
  "dec_nat n = (if n < 10 then [digit_char n] else dec_nat (n div 10) @ [digit_char (n mod 10)])"

declare dec_nat.simps [simp del]

definition sprintf_d :: "int \<Rightarrow> string" where
  "sprintf_d i = (if i < 0 then CHR ''-'' # dec_nat (nat (- i)) else dec_nat (nat i))"

text \<open>
  The reading of a decimal numeral, in the words of the specification (``the decimal bet
  amount''): an optional minus sign, then digits, most significant first.
\<close>

definition digit_value :: "char \<Rightarrow> nat" where
  "digit_value c = of_char c - 48"

definition is_digit :: "char \<Rightarrow> bool" where
  "is_digit c = (48 \<le> (of_char c :: nat) \<and> (of_char c :: nat) \<le> 57)"

definition decimal_nat :: "string \<Rightarrow> nat" where
  "decimal_nat s = foldl (\<lambda>acc c. 10 * acc + digit_value c) 0 s"

definition decimal_int :: "string \<Rightarrow> int" where
  "decimal_int s =
     (case s of
        [] \<Rightarrow> 0
      | c # cs \<Rightarrow> if c = CHR ''-'' then - int (decimal_nat cs) else int (decimal_nat s))"

subsection \<open>ActionGetString\<close>

text \<open>
  The function writes the encoding into the action's buffer and returns the buffer: the
  model returns the updated action and the string.
\<close>

definition ActionGetString :: "Action \<Rightarrow> Action \<times> string" where
  "ActionGetString action =
     (let s = (case type action of
                 FOLD \<Rightarrow> ''action_name=fold''
               | CALL \<Rightarrow> ''action_name=call''
               | BET \<Rightarrow> ''action_name=bet&amount='' @ sprintf_d (amount action)
               | ACTION_UNSET \<Rightarrow> ''action_name=fold'')
      in (action\<lparr>string := s\<rparr>, s))"

section \<open>Double precision\<close>

text \<open>
  \<^verbatim>\<open>GetBestAction\<close> computes the win probability as a \<^verbatim>\<open>double\<close>, which is taken
  to be IEEE 754 binary64, as Annex F of the C standard has it. A value of the
  model is a NaN, an infinity or a finite number, kept as the rational it denotes (the
  sign of a zero is not kept: the only divisor of the code is converted from an
  \<^verbatim>\<open>int\<close>, hence never a negative zero). Arithmetic is IEEE 754 binary64 with the
  default rounding, to nearest and ties to even: 53 significant bits, exponents from
  \<open>-1022\<close> to \<open>1023\<close>, subnormal numbers below, an infinity from \<open>2 ^ 1024\<close> on.
\<close>

datatype double = NaN | PInf | NInf | Fin rat

text \<open>\<open>ilog2 a\<close> is the exponent of the binade of \<open>a > 0\<close>: \<open>2 powi e \<le> a < 2 powi (e + 1)\<close>.\<close>

definition ilog2 :: "rat \<Rightarrow> int" where
  "ilog2 a = (if 1 \<le> a then bitlen \<lfloor>a\<rfloor> - 1 else - bitlen (\<lceil>1 / a\<rceil> - 1))"

definition round_half_even :: "rat \<Rightarrow> int" where
  "round_half_even m =
     (let f = \<lfloor>m\<rfloor>; d = m - of_int f
      in if d < 1 / 2 then f else if 1 / 2 < d then f + 1 else if even f then f else f + 1)"

definition round64 :: "rat \<Rightarrow> double" where
  "round64 x =
     (if x = 0 then Fin 0
      else
        let a = \<bar>x\<bar>;
            e = max (ilog2 a) (- 1022);
            u = 2 powi (e - 52);
            r = of_int (round_half_even (a / u)) * u
        in if 2 ^ 1024 \<le> r then (if x < 0 then NInf else PInf)
           else Fin (if x < 0 then - r else r))"

text \<open>An \<^verbatim>\<open>int\<close> has at most 31 significant bits: its conversion is exact.\<close>

definition d_of_int :: "int \<Rightarrow> double" where
  "d_of_int i = Fin (of_int i)"

fun dmul :: "double \<Rightarrow> double \<Rightarrow> double" where
  "dmul NaN y = NaN"
| "dmul x NaN = NaN"
| "dmul (Fin x) (Fin y) = round64 (x * y)"
| "dmul (Fin x) PInf = (if x = 0 then NaN else if 0 < x then PInf else NInf)"
| "dmul (Fin x) NInf = (if x = 0 then NaN else if 0 < x then NInf else PInf)"
| "dmul PInf (Fin y) = (if y = 0 then NaN else if 0 < y then PInf else NInf)"
| "dmul NInf (Fin y) = (if y = 0 then NaN else if 0 < y then NInf else PInf)"
| "dmul PInf PInf = PInf"
| "dmul PInf NInf = NInf"
| "dmul NInf PInf = NInf"
| "dmul NInf NInf = PInf"

fun ddiv :: "double \<Rightarrow> double \<Rightarrow> double" where
  "ddiv NaN y = NaN"
| "ddiv x NaN = NaN"
| "ddiv (Fin x) (Fin y) =
     (if y = 0 then (if x = 0 then NaN else if 0 < x then PInf else NInf)
      else round64 (x / y))"
| "ddiv (Fin x) PInf = Fin 0"
| "ddiv (Fin x) NInf = Fin 0"
| "ddiv PInf (Fin y) = (if 0 \<le> y then PInf else NInf)"
| "ddiv NInf (Fin y) = (if 0 \<le> y then NInf else PInf)"
| "ddiv PInf PInf = NaN"
| "ddiv PInf NInf = NaN"
| "ddiv NInf PInf = NaN"
| "ddiv NInf NInf = NaN"

text \<open>The comparison \<^verbatim>\<open>>\<close>: false as soon as one side is a NaN.\<close>

fun dgt :: "double \<Rightarrow> double \<Rightarrow> bool" where
  "dgt NaN y = False"
| "dgt x NaN = False"
| "dgt (Fin x) (Fin y) = (y < x)"
| "dgt PInf PInf = False"
| "dgt PInf y = True"
| "dgt x PInf = False"
| "dgt NInf y = False"
| "dgt x NInf = True"

text \<open>
  The conversion to \<^verbatim>\<open>int\<close> discards the fractional part (towards zero); it is
  undefined when the result is not an \<^verbatim>\<open>int\<close>.
\<close>

fun d_to_int :: "double \<Rightarrow> fault + int" where
  "d_to_int (Fin r) =
     (let t = (if 0 \<le> r then \<lfloor>r\<rfloor> else \<lceil>r\<rceil>)
      in if INT_MIN \<le> t \<and> t \<le> INT_MAX then Inr t else Inl BadConversion)"
| "d_to_int x = Inl BadConversion"

section \<open>The constants of the game\<close>

text \<open>
  \<^verbatim>\<open>pokerai.h\<close> and the header of the game state are not among the sources. The
  constants \<^verbatim>\<open>NUM_DECK\<close>, \<^verbatim>\<open>NUM_HAND\<close>, \<^verbatim>\<open>NUM_COMMUNITY\<close> and
  \<^verbatim>\<open>MAX_OPPONENTS\<close> are parameters of the model, and so is the hand evaluator
  \<^verbatim>\<open>GetHandValue\<close>, a function \<open>H\<close> from a hand to its score.
\<close>

record GameConsts =
  NUM_DECK :: nat
  NUM_HAND :: nat
  NUM_COMMUNITY :: nat
  MAX_OPPONENTS :: nat

section \<open>Drawing cards\<close>

text \<open>
  \<open>draw deck psize r\<close> is \<^verbatim>\<open>draw(deck, &psize)\<close> when \<^verbatim>\<open>rand()\<close> returns \<open>r\<close>: the
  card, the array and the size afterwards. The pool is the first \<open>psize\<close> cells of the
  array.
\<close>

definition draw :: "int list \<Rightarrow> nat \<Rightarrow> nat \<Rightarrow> fault + (int \<times> int list \<times> nat)" where
  "draw deck psize r =
     (if psize = 0 then Inl DivideByZero
      else if length deck < psize then Inl OutOfBounds
      else
        let index = r mod psize;
            v = deck ! index;
            deck' = deck[index := deck ! (psize - 1)]
        in Inr (v, deck', psize - 1))"

text \<open>Successive draws, one for each result of \<^verbatim>\<open>rand()\<close> in the list.\<close>

fun draw_cards :: "int list \<Rightarrow> nat \<Rightarrow> nat list \<Rightarrow> fault + (int list \<times> int list \<times> nat)" where
  "draw_cards deck psize [] = Inr ([], deck, psize)"
| "draw_cards deck psize (r # rs) =
     (case draw deck psize r of
        Inl e \<Rightarrow> Inl e
      | Inr (v, deck', psize') \<Rightarrow>
          (case draw_cards deck' psize' rs of
             Inl e \<Rightarrow> Inl e
           | Inr (vs, deck'', psize'') \<Rightarrow> Inr (v # vs, deck'', psize'')))"

section \<open>The loops of a simulated game\<close>

text \<open>
  The loop that creates the deck: \<open>bs\<close> are the flags not yet read, \<open>i\<close> the index of the
  first of them. The local array has 52 cells.
\<close>

fun fill_deck :: "bool list \<Rightarrow> nat \<Rightarrow> int list \<Rightarrow> nat \<Rightarrow> fault + (int list \<times> nat)" where
  "fill_deck [] i deck decksize = Inr (deck, decksize)"
| "fill_deck (b # bs) i deck decksize =
     (if b then
        (if decksize < length deck
         then fill_deck bs (Suc i) (deck[decksize := int i + 1]) (Suc decksize)
         else Inl OutOfBounds)
      else fill_deck bs (Suc i) deck decksize)"

text \<open>
  The cards each opponent gets: \<open>n\<close> opponents are still to be served, \<open>R\<close> gives the
  results of \<^verbatim>\<open>rand()\<close> during this game and \<open>k\<close> counts the calls made so far.
\<close>

fun deal_opponents ::
  "GameConsts \<Rightarrow> int list \<Rightarrow> nat \<Rightarrow> (nat \<Rightarrow> nat) \<Rightarrow> nat \<Rightarrow> int list \<Rightarrow> nat \<Rightarrow> fault + int list list"
where
  "deal_opponents K comm 0 R k deck decksize = Inr []"
| "deal_opponents K comm (Suc n) R k deck decksize =
     (case draw_cards deck decksize (map R [k ..< k + NUM_HAND K]) of
        Inl e \<Rightarrow> Inl e
      | Inr (personal, deck', decksize') \<Rightarrow>
          (case deal_opponents K comm n R (k + NUM_HAND K) deck' decksize' of
             Inl e \<Rightarrow> Inl e
           | Inr opps \<Rightarrow> Inr ((personal @ comm) # opps)))"

text \<open>The loop of \<^verbatim>\<open>BestOpponentHand\<close>: \<open>mx\<close> is the variable \<^verbatim>\<open>max\<close>.\<close>

fun BestOpponentHand_loop :: "(int list \<Rightarrow> int) \<Rightarrow> int list list \<Rightarrow> int \<Rightarrow> int" where
  "BestOpponentHand_loop H [] mx = mx"
| "BestOpponentHand_loop H (opp # opps) mx =
     (let score = H opp in BestOpponentHand_loop H opps (if mx < score then score else mx))"

definition BestOpponentHand :: "(int list \<Rightarrow> int) \<Rightarrow> int list list \<Rightarrow> int" where
  "BestOpponentHand H opponents = BestOpponentHand_loop H opponents 0"

section \<open>The game state and the engine\<close>

text \<open>
  The fields are those the code reads. \<open>deck g ! i\<close> says that card \<open>i + 1\<close> is still in
  the deck; \<open>communitysize\<close> and \<open>num_opponents\<close> are \<^verbatim>\<open>int\<close>s, as the loops over
  them have it. The fields of the engine for the threads, the mutex and the log are left
  out: logging has no effect on the decision.
\<close>

record GameState =
  hand :: "int list"
  community :: "int list"
  communitysize :: int
  num_opponents :: int
  deck :: "bool list"
  stack :: int
  your_turn :: bool

text \<open>
  The arrays of a game state have their declared lengths. A state that has not is not a
  value of the C type; \<open>deal_game\<close> answers \<open>OutOfBounds\<close> for it.
\<close>

definition wf_GameState :: "GameConsts \<Rightarrow> GameState \<Rightarrow> bool" where
  "wf_GameState K g =
     (length (hand g) = NUM_HAND K \<and> length (community g) = NUM_COMMUNITY K \<and>
      length (deck g) = NUM_DECK K)"

record PokerAI =
  num_threads :: int
  timeout :: int
  games_won :: int
  games_simulated :: int
  action :: Action
  game :: GameState

definition AI_WIN :: int where
  "AI_WIN = 1"

definition AI_LOSE :: int where
  "AI_LOSE = 0"

section \<open>One simulated game\<close>

text \<open>The deck of a game: the cards whose flag is set, in a local array of 52 cells.\<close>

definition create_deck :: "GameConsts \<Rightarrow> GameState \<Rightarrow> fault + (int list \<times> nat)" where
  "create_deck K g = fill_deck (take (NUM_DECK K) (deck g)) 0 (replicate 52 0) 0"

text \<open>
  The hands of a simulated game, the agent's and the opponents': everything
  \<^verbatim>\<open>SimulateSingleGame\<close> does before it scores. \<open>R\<close> gives the results of
  \<^verbatim>\<open>rand()\<close> during the game. An index outside \<^verbatim>\<open>opponents\<close> or
  \<^verbatim>\<open>community\<close> is \<open>OutOfBounds\<close>; a failure of \<^verbatim>\<open>malloc\<close> is not modelled.
\<close>

definition deal_game ::
  "GameConsts \<Rightarrow> GameState \<Rightarrow> (nat \<Rightarrow> nat) \<Rightarrow> fault + (int list \<times> int list list)"
where
  "deal_game K g R =
     (if \<not> wf_GameState K g then Inl OutOfBounds
      else if int (MAX_OPPONENTS K) < num_opponents g then Inl OutOfBounds
      else
        case create_deck K g of
          Inl e \<Rightarrow> Inl e
        | Inr (deck0, decksize0) \<Rightarrow>
            if communitysize g < 0 \<or> int (NUM_COMMUNITY K) < communitysize g then Inl OutOfBounds
            else
              let known = nat (communitysize g);
                  missing = NUM_COMMUNITY K - known
              in case draw_cards deck0 decksize0 (map R [0 ..< missing]) of
                   Inl e \<Rightarrow> Inl e
                 | Inr (drawn, deck1, decksize1) \<Rightarrow>
                     let comm = take known (community g) @ drawn
                     in case deal_opponents K comm (nat (num_opponents g)) R missing deck1 decksize1 of
                          Inl e \<Rightarrow> Inl e
                        | Inr opps \<Rightarrow> Inr (take (NUM_HAND K) (hand g) @ comm, opps))"

definition SimulateSingleGame ::
  "GameConsts \<Rightarrow> (int list \<Rightarrow> int) \<Rightarrow> GameState \<Rightarrow> (nat \<Rightarrow> nat) \<Rightarrow> fault + int"
where
  "SimulateSingleGame K H g R =
     (case deal_game K g R of
        Inl e \<Rightarrow> Inl e
      | Inr (me, opponents) \<Rightarrow>
          let myscore = H me;
              bestopponent = BestOpponentHand H opponents
          in Inr (if bestopponent < myscore then AI_WIN else AI_LOSE))"

section \<open>A Monte Carlo worker\<close>

text \<open>
  The state of the loop of \<^verbatim>\<open>SimulateGames\<close>: its two counters, and the trace of the
  clock, which holds the value of \<open>simulated\<close> at every call of
  \<^verbatim>\<open>GetElapsedTime\<close>. The trace is not a variable of the code: it records the one
  effect of the loop that its counters do not show.
\<close>

record WorkerState =
  simulated :: int
  won :: int
  clock_reads :: "int list"

text \<open>
  The loop \<^verbatim>\<open>while (1)\<close> ends only when the clock says so: the model counts the
  iterations left (\<open>fuel\<close>), and a run that needs more is \<open>Inl OutOfFuel\<close>. \<open>T n\<close> is
  what the call number \<open>n\<close> of \<^verbatim>\<open>GetElapsedTime\<close> returns, in milliseconds, and
  \<open>R j\<close> gives the results of \<^verbatim>\<open>rand()\<close> during game \<open>j\<close>. The operator
  \<^verbatim>\<open>&&\<close> evaluates its right side, the call of the clock, only when its left side
  holds. \<open>simulated\<close> is never negative, so \<^verbatim>\<open>%\<close> is \<open>mod\<close>.
\<close>

fun SimulateGames_loop ::
  "nat \<Rightarrow> GameConsts \<Rightarrow> (int list \<Rightarrow> int) \<Rightarrow> PokerAI \<Rightarrow> (nat \<Rightarrow> rat) \<Rightarrow> (nat \<Rightarrow> nat \<Rightarrow> nat) \<Rightarrow>
   WorkerState \<Rightarrow> fault + WorkerState"
where
  "SimulateGames_loop 0 K H ai T R s = Inl OutOfFuel"
| "SimulateGames_loop (Suc fuel) K H ai T R s =
     (let check = (simulated s mod 1000 = 0);
          s1 = (if check then s\<lparr>clock_reads := clock_reads s @ [simulated s]\<rparr> else s)
      in if check \<and> of_int (timeout ai) < T (length (clock_reads s)) then Inr s1
         else
           case SimulateSingleGame K H (game ai) (R (nat (simulated s))) of
             Inl e \<Rightarrow> Inl e
           | Inr r \<Rightarrow>
               if INT_MAX < won s + r \<or> INT_MAX < simulated s + 1 then Inl SignedOverflow
               else SimulateGames_loop fuel K H ai T R
                      (s1\<lparr>won := won s + r, simulated := simulated s + 1\<rparr>))"

text \<open>
  A worker: the loop from the counters at 0, then the update of the totals under the
  mutex. The result is the worker's tally and the totals after its update.
\<close>

definition SimulateGames ::
  "nat \<Rightarrow> GameConsts \<Rightarrow> (int list \<Rightarrow> int) \<Rightarrow> (nat \<Rightarrow> rat) \<Rightarrow> (nat \<Rightarrow> nat \<Rightarrow> nat) \<Rightarrow> PokerAI \<Rightarrow>
   fault + (WorkerState \<times> PokerAI)"
where
  "SimulateGames fuel K H T R ai =
     (case SimulateGames_loop fuel K H ai T R \<lparr>simulated = 0, won = 0, clock_reads = []\<rparr> of
        Inl e \<Rightarrow> Inl e
      | Inr s \<Rightarrow>
          if INT_MAX < games_won ai + won s \<or> INT_MAX < games_simulated ai + simulated s
          then Inl SignedOverflow
          else Inr (s, ai\<lparr>games_won := games_won ai + won s,
                          games_simulated := games_simulated ai + simulated s\<rparr>))"

section \<open>The coordinator and the decision\<close>

text \<open>
  The threads share the game state and the timeout, which they only read, the state of
  \<^verbatim>\<open>rand()\<close>, and the two totals, which each thread updates once, holding the mutex.
  Whatever the interleaving, every thread sees some sequence of results of \<^verbatim>\<open>rand()\<close>
  and of the clock (\<open>R i\<close> and \<open>T i\<close> for thread \<open>i\<close>), and the totals after the joins
  are the sums of the tallies: the model runs the workers one after the other.
\<close>

fun join_workers ::
  "nat \<Rightarrow> GameConsts \<Rightarrow> (int list \<Rightarrow> int) \<Rightarrow> (nat \<Rightarrow> nat \<Rightarrow> rat) \<Rightarrow> (nat \<Rightarrow> nat \<Rightarrow> nat \<Rightarrow> nat) \<Rightarrow>
   nat list \<Rightarrow> PokerAI \<Rightarrow> fault + PokerAI"
where
  "join_workers fuel K H T R [] ai = Inr ai"
| "join_workers fuel K H T R (i # threads) ai =
     (case SimulateGames fuel K H (T i) (R i) ai of
        Inl e \<Rightarrow> Inl e
      | Inr (s, ai') \<Rightarrow> join_workers fuel K H T R threads ai')"

definition SpawnMonteCarloThreads ::
  "nat \<Rightarrow> GameConsts \<Rightarrow> (int list \<Rightarrow> int) \<Rightarrow> (nat \<Rightarrow> nat \<Rightarrow> rat) \<Rightarrow> (nat \<Rightarrow> nat \<Rightarrow> nat \<Rightarrow> nat) \<Rightarrow>
   PokerAI \<Rightarrow> fault + PokerAI"
where
  "SpawnMonteCarloThreads fuel K H T R ai =
     join_workers fuel K H T R [0 ..< nat (num_threads ai)] ai"

text \<open>The quotient of line 193: both tallies are converted to \<^verbatim>\<open>double\<close>.\<close>

definition winprob_of :: "int \<Rightarrow> int \<Rightarrow> double" where
  "winprob_of w n = ddiv (d_of_int w) (d_of_int n)"

text \<open>
  The decision policy, lines 202 to 214 of \<^verbatim>\<open>GetBestAction\<close> (\<open>decide\<close> in the
  specification). Only the first branch assigns \<open>amount\<close>.
\<close>

definition decide :: "Action \<Rightarrow> int \<Rightarrow> double \<Rightarrow> fault + Action" where
  "decide a stk winprob =
     (if dgt winprob (Fin (1 / 2)) then
        (case d_to_int (dmul (d_of_int stk) winprob) of
           Inl e \<Rightarrow> Inl e
         | Inr n \<Rightarrow> Inr (a\<lparr>type := BET, amount := n\<rparr>))
      else if dgt winprob (Fin (1 / 4)) then Inr (a\<lparr>type := CALL\<rparr>)
      else Inr (a\<lparr>type := FOLD\<rparr>))"

definition GetBestAction ::
  "nat \<Rightarrow> GameConsts \<Rightarrow> (int list \<Rightarrow> int) \<Rightarrow> (nat \<Rightarrow> nat \<Rightarrow> rat) \<Rightarrow> (nat \<Rightarrow> nat \<Rightarrow> nat \<Rightarrow> nat) \<Rightarrow>
   PokerAI \<Rightarrow> fault + (PokerAI \<times> string)"
where
  "GetBestAction fuel K H T R ai =
     (case SpawnMonteCarloThreads fuel K H T R (ai\<lparr>games_won := 0, games_simulated := 0\<rparr>) of
        Inl e \<Rightarrow> Inl e
      | Inr ai1 \<Rightarrow>
          let winprob = winprob_of (games_won ai1) (games_simulated ai1)
          in case decide (action ai1) (stack (game ai1)) winprob of
               Inl e \<Rightarrow> Inl e
             | Inr a \<Rightarrow>
                 let (a', s) = ActionGetString a
                 in Inr (ai1\<lparr>action := a'\<rparr>, s))"

section \<open>Updating the game state\<close>

text \<open>
  Modelled from the spec: \<^verbatim>\<open>SetGameState\<close> is not among the sources. The
  specification has the game state ``replaced wholesale on each update'' by ``a total,
  side-effect-free decoder that either fully populates GameState or signals a decode
  failure'', and on a failure ``the engine retains the previous GameState unchanged''.
  The decoder is the parameter \<open>decode\<close>.
\<close>

definition SetGameState :: "('j \<Rightarrow> GameState option) \<Rightarrow> GameState \<Rightarrow> 'j \<Rightarrow> GameState" where
  "SetGameState decode g new_state = (case decode new_state of None \<Rightarrow> g | Some g' \<Rightarrow> g')"

definition UpdateGameState :: "('j \<Rightarrow> GameState option) \<Rightarrow> PokerAI \<Rightarrow> 'j \<Rightarrow> PokerAI" where
  "UpdateGameState decode ai new_state =
     (let ai1 = ai\<lparr>action := (action ai)\<lparr>type := ACTION_UNSET\<rparr>\<rparr>
      in ai1\<lparr>game := SetGameState decode (game ai1) new_state\<rparr>)"

definition MyTurn :: "PokerAI \<Rightarrow> bool" where
  "MyTurn ai = your_turn (game ai)"

section \<open>The used set, and concrete inputs\<close>

text \<open>
  The used set of a game state: the cards whose flag in \<open>deck g\<close> is off. (The flags are
  set by \<^verbatim>\<open>SetGameState\<close>.)
\<close>

definition used_cards :: "GameConsts \<Rightarrow> GameState \<Rightarrow> int set" where
  "used_cards K g = set (map (\<lambda>i. int i + 1) (filter (\<lambda>i. \<not> deck g ! i) [0 ..< NUM_DECK K]))"

text \<open>Texas hold'em, and a state after the flop, with two opponents.\<close>

definition texas :: GameConsts where
  "texas = \<lparr>NUM_DECK = 52, NUM_HAND = 2, NUM_COMMUNITY = 5, MAX_OPPONENTS = 10\<rparr>"

definition flop_state :: GameState where
  "flop_state =
     \<lparr>hand = [1, 2], community = [3, 4, 5, 0, 0], communitysize = 3, num_opponents = 2,
      deck = replicate 5 False @ replicate 47 True, stack = 100, your_turn = True\<rparr>"

text \<open>
  The rule of the specification for one game: the agent wins when its score is strictly
  greater than the score of every opponent.
\<close>

definition wins_by_spec :: "(int list \<Rightarrow> int) \<Rightarrow> int list \<Rightarrow> int list list \<Rightarrow> bool" where
  "wins_by_spec H me opponents = list_all (\<lambda>opp. H opp < H me) opponents"

text \<open>
  A state at the river with one opponent, and a family of evaluators: the score of a
  hand is \<open>c\<close> minus the sum of its cards.
\<close>

definition river_state :: GameState where
  "river_state =
     \<lparr>hand = [1, 2], community = [3, 4, 5, 6, 7], communitysize = 5, num_opponents = 1,
      deck = replicate 7 False @ replicate 45 True, stack = 100, your_turn = True\<rparr>"

definition sum_score :: "int \<Rightarrow> int list \<Rightarrow> int" where
  "sum_score c cards = c - sum_list cards"

text \<open>An engine with two threads and a timeout of one millisecond, at the river.\<close>

definition ai0 :: PokerAI where
  "ai0 = \<lparr>num_threads = 2, timeout = 1, games_won = 0, games_simulated = 0,
           action = \<lparr>type = ACTION_UNSET, amount = 0, string = []\<rparr>, game = river_state\<rparr>"

section \<open>Notions for the proofs about the worker\<close>

text \<open>
  The state after an iteration that simulates a game with result \<open>r\<close>, and the
  invariant of the trace of the clock: before the iteration with \<open>simulated s = n\<close> the
  clock was read at the multiples of 1000 below \<open>n\<close>, and none of the readings was beyond
  the timeout.
\<close>

definition next_state :: "WorkerState \<Rightarrow> int \<Rightarrow> WorkerState" where
  "next_state s r =
     (if simulated s mod 1000 = 0 then s\<lparr>clock_reads := clock_reads s @ [simulated s]\<rparr> else s)
       \<lparr>won := won s + r, simulated := simulated s + 1\<rparr>"

definition clock_inv :: "PokerAI \<Rightarrow> (nat \<Rightarrow> rat) \<Rightarrow> WorkerState \<Rightarrow> bool" where
  "clock_inv ai T s =
     (0 \<le> simulated s \<and>
      clock_reads s = map (\<lambda>k. 1000 * int k) [0 ..< nat ((simulated s + 999) div 1000)] \<and>
      (\<forall>k < nat ((simulated s + 999) div 1000). T k \<le> of_int (timeout ai)))"

section \<open>Properties of the action encoding\<close>

lemma digit_value_digit_char: "d < 10 \<Longrightarrow> digit_value (digit_char d) = d"
  by (simp add: digit_value_def digit_char_def)

lemma is_digit_digit_char: "d < 10 \<Longrightarrow> is_digit (digit_char d)"
  by (simp add: is_digit_def digit_char_def)

lemma decimal_nat_snoc: "decimal_nat (s @ [c]) = 10 * decimal_nat s + digit_value c"
  by (simp add: decimal_nat_def)

lemma decimal_nat_dec_nat: "decimal_nat (dec_nat n) = n"
proof (induction n rule: dec_nat.induct)
  case (1 n)
  show ?case
  proof (cases "n < 10")
    case True
    then show ?thesis
      by (simp add: dec_nat.simps [of n] decimal_nat_def digit_value_digit_char)
  next
    case False
    with "1" have "decimal_nat (dec_nat (n div 10)) = n div 10"
      by simp
    with False show ?thesis
      by (simp add: dec_nat.simps [of n] decimal_nat_snoc digit_value_digit_char)
  qed
qed

lemma dec_nat_digits: "\<forall>c \<in> set (dec_nat n). is_digit c"
proof (induction n rule: dec_nat.induct)
  case (1 n)
  show ?case
  proof (cases "n < 10")
    case True
    then show ?thesis
      by (simp add: dec_nat.simps [of n] is_digit_digit_char)
  next
    case False
    with "1" have "\<forall>c \<in> set (dec_nat (n div 10)). is_digit c"
      by simp
    with False show ?thesis
      by (simp add: dec_nat.simps [of n] is_digit_digit_char)
  qed
qed

lemma dec_nat_nonempty: "dec_nat n \<noteq> []"
  by (subst dec_nat.simps) simp

lemma hd_dec_nat_not_minus: "hd (dec_nat n) \<noteq> CHR ''-''"
proof -
  have "hd (dec_nat n) \<in> set (dec_nat n)"
    by (simp add: dec_nat_nonempty)
  then have "is_digit (hd (dec_nat n))"
    using dec_nat_digits by blast
  then show ?thesis
    by (auto simp add: is_digit_def)
qed

lemma decimal_int_sprintf_d: "decimal_int (sprintf_d i) = i"
proof (cases "i < 0")
  case True
  then show ?thesis
    by (simp add: sprintf_d_def decimal_int_def decimal_nat_dec_nat)
next
  case False
  obtain c cs where cs: "dec_nat (nat i) = c # cs"
    using dec_nat_nonempty [of "nat i"] by (cases "dec_nat (nat i)") auto
  with hd_dec_nat_not_minus [of "nat i"] have "c \<noteq> CHR ''-''"
    by simp
  moreover have "decimal_nat (c # cs) = nat i"
    using decimal_nat_dec_nat [of "nat i"] cs by simp
  ultimately show ?thesis
    using False cs by (simp add: sprintf_d_def decimal_int_def)
qed

text \<open>
  C9. The encoding of an action that has been set is \<open>action_name=fold\<close> for a fold,
  \<open>action_name=call\<close> for a call, and \<open>action_name=bet&amount=\<close> followed by the
  amount for a bet; the amount is written in decimal (its digits, read back, give the
  amount), and every action the decision policy returns is one of the three.
\<close>

theorem ActionGetString_of_set_action:
  "(type a = FOLD \<longrightarrow> snd (ActionGetString a) = ''action_name=fold'') \<and>
   (type a = CALL \<longrightarrow> snd (ActionGetString a) = ''action_name=call'') \<and>
   (type a = BET \<longrightarrow>
      snd (ActionGetString a) = ''action_name=bet&amount='' @ sprintf_d (amount a) \<and>
      decimal_int (sprintf_d (amount a)) = amount a) \<and>
   (decide a0 stk p = Inr a \<longrightarrow> type a = FOLD \<or> type a = CALL \<or> type a = BET) \<and>
   string (fst (ActionGetString a)) = snd (ActionGetString a)"
proof -
  have "type a = FOLD \<or> type a = CALL \<or> type a = BET" if "decide a0 stk p = Inr a"
    using that by (auto simp add: decide_def split: if_splits sum.splits)
  then show ?thesis
    by (simp add: ActionGetString_def Let_def decimal_int_sprintf_d)
qed

theorem ActionGetString_of_set_action_witness:
  "snd (ActionGetString \<lparr>type = FOLD, amount = 0, string = []\<rparr>) = ''action_name=fold'' \<and>
   snd (ActionGetString \<lparr>type = CALL, amount = 0, string = []\<rparr>) = ''action_name=call'' \<and>
   snd (ActionGetString \<lparr>type = BET, amount = 75, string = []\<rparr>) = ''action_name=bet&amount=75'' \<and>
   decide \<lparr>type = ACTION_UNSET, amount = 0, string = []\<rparr> 100 (Fin (1 / 3))
     = Inr \<lparr>type = CALL, amount = 0, string = []\<rparr>"
proof -
  have d: "sprintf_d 75 = ''75''"
    by code_simp
  have p: "decide \<lparr>type = ACTION_UNSET, amount = 0, string = []\<rparr> 100 (Fin (1 / 3))
             = Inr \<lparr>type = CALL, amount = 0, string = []\<rparr>"
    by (simp add: decide_def)
  show ?thesis
    using ActionGetString_of_set_action [of "\<lparr>type = FOLD, amount = 0, string = []\<rparr>"]
      ActionGetString_of_set_action [of "\<lparr>type = BET, amount = 75, string = []\<rparr>"]
      ActionGetString_of_set_action [of "\<lparr>type = CALL, amount = 0, string = []\<rparr>"
        "\<lparr>type = ACTION_UNSET, amount = 0, string = []\<rparr>" 100 "Fin (1 / 3)"]
      d p
    by simp
qed

text \<open>
  C10. An action whose type is none of fold, call and bet (the type is then
  \<open>ACTION_UNSET\<close>, as after an update of the game state) has an encoding all the
  same: \<open>action_name=fold\<close>, which is written into its buffer and returned.
\<close>

theorem ActionGetString_of_unset_action:
  "type a \<noteq> FOLD \<Longrightarrow> type a \<noteq> CALL \<Longrightarrow> type a \<noteq> BET \<Longrightarrow>
   type a = ACTION_UNSET \<and>
   ActionGetString a = (a\<lparr>string := ''action_name=fold''\<rparr>, ''action_name=fold'')"
proof -
  assume "type a \<noteq> FOLD" and "type a \<noteq> CALL" and "type a \<noteq> BET"
  then have unset: "type a = ACTION_UNSET"
    by (cases "type a") simp_all
  then have "ActionGetString a = (a\<lparr>string := ''action_name=fold''\<rparr>, ''action_name=fold'')"
    by (simp add: ActionGetString_def Let_def)
  with unset show ?thesis
    by simp
qed

theorem ActionGetString_of_unset_action_witness:
  "ActionGetString \<lparr>type = ACTION_UNSET, amount = 7, string = ''action_name=call''\<rparr>
     = (\<lparr>type = ACTION_UNSET, amount = 7, string = ''action_name=fold''\<rparr>, ''action_name=fold'')"
  using ActionGetString_of_unset_action
    [of "\<lparr>type = ACTION_UNSET, amount = 7, string = ''action_name=call''\<rparr>"]
  by simp

section \<open>Properties of the update of the game state\<close>

lemma SetGameState_idempotent:
  "SetGameState decode (SetGameState decode g new_state) new_state
     = SetGameState decode g new_state"
  by (cases "decode new_state") (simp_all add: SetGameState_def)

text \<open>
  C7. Updating the game state twice with the same input gives the state that one update
  gives, game state and action alike, and the type of the action is \<open>ACTION_UNSET\<close>
  after the first update and after the second. (The update leaves the amount and the
  buffer of the action as they were.)
\<close>

theorem UpdateGameState_idempotent:
  "UpdateGameState decode (UpdateGameState decode ai new_state) new_state
     = UpdateGameState decode ai new_state \<and>
   game (UpdateGameState decode (UpdateGameState decode ai new_state) new_state)
     = game (UpdateGameState decode ai new_state) \<and>
   type (action (UpdateGameState decode ai new_state)) = ACTION_UNSET \<and>
   type (action (UpdateGameState decode (UpdateGameState decode ai new_state) new_state))
     = ACTION_UNSET \<and>
   amount (action (UpdateGameState decode ai new_state)) = amount (action ai) \<and>
   string (action (UpdateGameState decode ai new_state)) = string (action ai)"
proof -
  define ai1 where "ai1 = UpdateGameState decode ai new_state"
  have g: "game ai1 = SetGameState decode (game ai) new_state"
    and a: "action ai1 = (action ai)\<lparr>type := ACTION_UNSET\<rparr>"
    by (simp_all add: ai1_def UpdateGameState_def Let_def)
  have twice: "UpdateGameState decode ai1 new_state = ai1"
  proof -
    have "SetGameState decode (game ai1) new_state = game ai1"
      unfolding g by (rule SetGameState_idempotent)
    moreover have "(action ai1)\<lparr>type := ACTION_UNSET\<rparr> = action ai1"
      unfolding a by simp
    ultimately show ?thesis
      by (simp add: UpdateGameState_def Let_def)
  qed
  from a have "type (action ai1) = ACTION_UNSET" "amount (action ai1) = amount (action ai)"
    "string (action ai1) = string (action ai)"
    by simp_all
  with twice show ?thesis
    unfolding ai1_def [symmetric] by simp
qed

section \<open>Properties of the deck sampler\<close>

lemma draw_pool:
  assumes "0 < n" "n \<le> length cards"
  shows "\<exists>v cards'. draw cards n r = Inr (v, cards', n - 1) \<and> length cards' = length cards \<and>
           v = cards ! (r mod n) \<and>
           add_mset v (mset (take (n - 1) cards')) = mset (take n cards)"
proof -
  obtain m where n: "n = Suc m"
    using assms(1) by (cases n) auto
  let ?i = "r mod n"
  let ?cards' = "cards[?i := cards ! m]"
  have i: "?i \<le> m"
    using n by (simp add: less_Suc_eq_le [symmetric])
  have m: "m < length cards"
    using assms(2) n by simp
  have tk: "take n cards = take m cards @ [cards ! m]"
    using m n by (simp add: take_Suc_conv_app_nth)
  have "add_mset (cards ! ?i) (mset (take m ?cards')) = mset (take n cards)"
  proof (cases "?i = m")
    case True
    then show ?thesis
      using tk by simp
  next
    case False
    with i have lt: "?i < m"
      by simp
    then have "?i < length (take m cards)"
      using m by simp
    then have "mset (take m ?cards')
        = add_mset (cards ! m) (mset (take m cards) - {#take m cards ! ?i#})"
      by (simp add: take_update_swap mset_update)
    moreover have "take m cards ! ?i \<in># mset (take m cards)"
      using lt m by (simp add: nth_mem del: nth_take)
    moreover have "take m cards ! ?i = cards ! ?i"
      using lt by simp
    ultimately show ?thesis
      using tk by simp
  qed
  then show ?thesis
    using assms n by (simp add: draw_def Let_def)
qed

lemma draw_cards_pool:
  "length rs \<le> n \<Longrightarrow> n \<le> length cards \<Longrightarrow>
   \<exists>vs cards'. draw_cards cards n rs = Inr (vs, cards', n - length rs) \<and>
     length vs = length rs \<and> length cards' = length cards \<and>
     mset vs + mset (take (n - length rs) cards') = mset (take n cards)"
proof (induction rs arbitrary: cards n)
  case Nil
  then show ?case by simp
next
  case (Cons r rs)
  from Cons.prems have n: "0 < n" "n \<le> length cards"
    by simp_all
  from draw_pool [OF n, of r] obtain v cards1 where
    d: "draw cards n r = Inr (v, cards1, n - 1)" and
    l: "length cards1 = length cards" and
    m: "add_mset v (mset (take (n - 1) cards1)) = mset (take n cards)"
    by blast
  from Cons.prems l have "length rs \<le> n - 1" "n - 1 \<le> length cards1"
    by simp_all
  from Cons.IH [OF this] obtain vs cards2 where
    ds: "draw_cards cards1 (n - 1) rs = Inr (vs, cards2, n - 1 - length rs)" and
    ls: "length vs = length rs" "length cards2 = length cards1" and
    ms: "mset vs + mset (take (n - 1 - length rs) cards2) = mset (take (n - 1) cards1)"
    by blast
  have "mset (v # vs) + mset (take (n - length (r # rs)) cards2) = mset (take n cards)"
    using m ms by (simp add: add.commute)
  then show ?case
    using d ds ls l by simp
qed

text \<open>
  C4. A pool of size \<open>N \<ge> 1\<close> is the first \<open>N\<close> cells of an array. One call of
  \<open>draw\<close> returns an element of the pool and leaves the pool without one occurrence of
  it, its size \<open>N - 1\<close>. \<open>N\<close> successive calls return, whatever \<^verbatim>\<open>rand()\<close> gives, the
  elements of the pool, each as often as the pool holds it, and leave the pool empty; the
  values are pairwise distinct when the pool holds no card twice.
\<close>

theorem draw_without_replacement:
  assumes "1 \<le> N" and "N \<le> length cards" and "length rs = N"
  shows "(\<exists>v cards'. draw cards N r = Inr (v, cards', N - 1) \<and> v \<in> set (take N cards) \<and>
            length cards' = length cards \<and>
            mset (take (N - 1) cards') = mset (take N cards) - {#v#}) \<and>
         (\<exists>vs cards'. draw_cards cards N rs = Inr (vs, cards', 0) \<and> length vs = N \<and>
            mset vs = mset (take N cards) \<and> set vs = set (take N cards) \<and>
            (distinct (take N cards) \<longrightarrow> distinct vs))"
proof -
  from assms have N: "0 < N"
    by simp
  from draw_pool [OF N assms(2), of r] obtain v cards' where
    d: "draw cards N r = Inr (v, cards', N - 1)" "length cards' = length cards" and
    m: "add_mset v (mset (take (N - 1) cards')) = mset (take N cards)"
    by blast
  from m have "v \<in># mset (take N cards)"
    by (metis union_single_eq_member)
  moreover from m have "mset (take (N - 1) cards') = mset (take N cards) - {#v#}"
    by (metis add_mset_remove_trivial)
  ultimately have one: "\<exists>v cards'. draw cards N r = Inr (v, cards', N - 1) \<and>
      v \<in> set (take N cards) \<and> length cards' = length cards \<and>
      mset (take (N - 1) cards') = mset (take N cards) - {#v#}"
    using d by auto
  from draw_cards_pool [of rs N cards] assms obtain vs cards'' where
    ds: "draw_cards cards N rs = Inr (vs, cards'', 0)" "length vs = N" and
    ms: "mset vs = mset (take N cards)"
    by auto
  from ms have "set vs = set (take N cards)"
    by (rule mset_eq_setD)
  moreover from ms have "distinct vs \<longleftrightarrow> distinct (take N cards)"
    by (rule mset_eq_imp_distinct_iff)
  ultimately show ?thesis
    using one ds ms by auto
qed

theorem draw_without_replacement_witness:
  "draw [10, 20, 30, 40, 50] 5 7 = Inr (30, [10, 20, 50, 40, 50], 4) \<and>
   draw_cards [10, 20, 30, 40, 50] 5 [7, 7, 7, 7, 7]
     = Inr ([30, 40, 20, 50, 10], [10, 50, 50, 40, 50], 0) \<and>
   distinct [30, 40, 20, 50, 10 :: int]"
proof -
  have e1: "draw [10, 20, 30, 40, 50] 5 7 = Inr (30, [10, 20, 50, 40, 50], 4)"
    by code_simp
  have e2: "draw_cards [10, 20, 30, 40, 50] 5 [7, 7, 7, 7, 7]
              = Inr ([30, 40, 20, 50, 10], [10, 50, 50, 40, 50], 0)"
    by code_simp
  show ?thesis
    using draw_without_replacement [of 5 "[10, 20, 30, 40, 50]" "[7, 7, 7, 7, 7]" 7] e1 e2
    by simp
qed

section \<open>Properties of the created deck\<close>

lemma fill_deck_pool:
  "n + length (filter (\<lambda>b. b) bs) \<le> length cards \<Longrightarrow>
   \<exists>cards'. fill_deck bs i cards n = Inr (cards', n + length (filter (\<lambda>b. b) bs)) \<and>
     length cards' = length cards \<and>
     take (n + length (filter (\<lambda>b. b) bs)) cards'
       = take n cards @ map (\<lambda>j. int j + 1) (filter (\<lambda>j. bs ! (j - i)) [i ..< i + length bs])"
proof (induction bs arbitrary: i cards n)
  case Nil
  then show ?case by simp
next
  case (Cons b bs)
  have shift: "filter (\<lambda>j. (b # bs) ! (j - i)) [Suc i ..< Suc i + length bs]
      = filter (\<lambda>j. bs ! (j - Suc i)) [Suc i ..< Suc i + length bs]"
  proof (rule filter_cong)
    fix j
    assume "j \<in> set [Suc i ..< Suc i + length bs]"
    then have "j - i = Suc (j - Suc i)"
      by auto
    then show "(b # bs) ! (j - i) = bs ! (j - Suc i)"
      by simp
  qed simp
  have upt: "[i ..< i + length (b # bs)] = i # [Suc i ..< Suc i + length bs]"
    by (simp add: upt_rec)
  show ?case
  proof (cases b)
    case True
    with Cons.prems have n: "n < length cards"
      by simp
    from Cons.prems True
    have "Suc n + length (filter (\<lambda>b. b) bs) \<le> length (cards[n := int i + 1])"
      by simp
    from Cons.IH [OF this, of "Suc i"] obtain cards' where
      f: "fill_deck bs (Suc i) (cards[n := int i + 1]) (Suc n)
            = Inr (cards', Suc n + length (filter (\<lambda>b. b) bs))" and
      l: "length cards' = length cards" and
      t: "take (Suc n + length (filter (\<lambda>b. b) bs)) cards'
            = take (Suc n) (cards[n := int i + 1])
              @ map (\<lambda>j. int j + 1) (filter (\<lambda>j. bs ! (j - Suc i)) [Suc i ..< Suc i + length bs])"
      by auto
    have "take (Suc n) (cards[n := int i + 1]) = take n cards @ [int i + 1]"
      using n by (simp add: take_Suc_conv_app_nth)
    with t shift True
    have "take (n + length (filter (\<lambda>b. b) (b # bs))) cards'
            = take n cards
              @ map (\<lambda>j. int j + 1) (filter (\<lambda>j. (b # bs) ! (j - i)) [i ..< i + length (b # bs)])"
      unfolding upt by simp
    then show ?thesis
      using f l n True by simp
  next
    case False
    with Cons.prems have "n + length (filter (\<lambda>b. b) bs) \<le> length cards"
      by simp
    from Cons.IH [OF this, of "Suc i"] obtain cards' where
      f: "fill_deck bs (Suc i) cards n = Inr (cards', n + length (filter (\<lambda>b. b) bs))" and
      l: "length cards' = length cards" and
      t: "take (n + length (filter (\<lambda>b. b) bs)) cards'
            = take n cards
              @ map (\<lambda>j. int j + 1) (filter (\<lambda>j. bs ! (j - Suc i)) [Suc i ..< Suc i + length bs])"
      by auto
    from t shift False
    have "take (n + length (filter (\<lambda>b. b) (b # bs))) cards'
            = take n cards
              @ map (\<lambda>j. int j + 1) (filter (\<lambda>j. (b # bs) ! (j - i)) [i ..< i + length (b # bs)])"
      unfolding upt by simp
    then show ?thesis
      using f l False by simp
  qed
qed

lemma create_deck_pool:
  assumes "wf_GameState K g" "NUM_DECK K \<le> 52"
  shows "\<exists>cards n. create_deck K g = Inr (cards, n) \<and> n \<le> length cards \<and> length cards = 52 \<and>
           take n cards = map (\<lambda>j. int j + 1) (filter (\<lambda>j. deck g ! j) [0 ..< NUM_DECK K])"
proof -
  have len: "length (deck g) = NUM_DECK K"
    using assms(1) by (simp add: wf_GameState_def)
  have "length (filter (\<lambda>b. b) (deck g)) \<le> length (deck g)"
    by (rule length_filter_le)
  with len assms(2)
  have "0 + length (filter (\<lambda>b. b) (deck g)) \<le> length (replicate 52 (0::int))"
    by simp
  from fill_deck_pool [OF this, of 0] len this show ?thesis
    by (auto simp add: create_deck_def)
qed

lemma unused_cards_set:
  "set (map (\<lambda>j. int j + 1) (filter (\<lambda>j. deck g ! j) [0 ..< NUM_DECK K]))
     = {1 .. int (NUM_DECK K)} - used_cards K g"
proof -
  have inj: "int j + 1 = int i + 1 \<Longrightarrow> j = i" for i j :: nat
    by simp
  have "c \<in> set (map (\<lambda>j. int j + 1) (filter (\<lambda>j. deck g ! j) [0 ..< NUM_DECK K]))
           \<longleftrightarrow> c \<in> {1 .. int (NUM_DECK K)} - used_cards K g" for c
  proof (cases "1 \<le> c \<and> c \<le> int (NUM_DECK K)")
    case True
    then have c: "c = int (nat (c - 1)) + 1" "nat (c - 1) < NUM_DECK K"
      by auto
    have "(\<exists>j < NUM_DECK K. P j \<and> c = int j + 1) \<longleftrightarrow> P (nat (c - 1))" for P
      using c by (metis inj)
    then show ?thesis
      using True by (auto simp add: used_cards_def image_iff)
  next
    case False
    then show ?thesis
      by (auto simp add: used_cards_def image_iff)
  qed
  then show ?thesis
    by blast
qed

lemma unused_cards_distinct:
  "distinct (map (\<lambda>j. int j + 1) (filter (\<lambda>j. deck g ! j) [0 ..< NUM_DECK K]))"
  by (simp add: distinct_map inj_on_def)

text \<open>
  C5. The pool that a simulated game creates first holds exactly the cards from \<open>1\<close> to
  \<^verbatim>\<open>NUM_DECK\<close> that are not in the used set, each once; so it holds none of the
  agent's cards and none of the known community cards when the state has these in its
  used set. (The local array has 52 cells, so \<^verbatim>\<open>NUM_DECK\<close> is at most 52.)
\<close>

theorem create_deck_unused_cards:
  assumes "wf_GameState K g" and "NUM_DECK K \<le> 52"
  shows "\<exists>cards n. create_deck K g = Inr (cards, n) \<and> n \<le> length cards \<and>
           distinct (take n cards) \<and>
           set (take n cards) = {1 .. int (NUM_DECK K)} - used_cards K g \<and>
           (set (hand g) \<union> set (take (nat (communitysize g)) (community g)) \<subseteq> used_cards K g \<longrightarrow>
              set (take n cards) \<inter>
                (set (hand g) \<union> set (take (nat (communitysize g)) (community g))) = {})"
proof -
  from create_deck_pool [OF assms] obtain cards n where
    c: "create_deck K g = Inr (cards, n)" "n \<le> length cards" and
    t: "take n cards = map (\<lambda>j. int j + 1) (filter (\<lambda>j. deck g ! j) [0 ..< NUM_DECK K])"
    by blast
  have d: "distinct (take n cards)"
    unfolding t by (rule unused_cards_distinct)
  have s: "set (take n cards) = {1 .. int (NUM_DECK K)} - used_cards K g"
    unfolding t by (rule unused_cards_set)
  then have "set (take n cards) \<inter> U = {}" if "U \<subseteq> used_cards K g" for U
    using that by blast
  with c d s show ?thesis
    by blast
qed

theorem create_deck_unused_cards_witness:
  "wf_GameState texas flop_state \<and> NUM_DECK texas \<le> 52 \<and>
   set (hand flop_state) \<union> set (take (nat (communitysize flop_state)) (community flop_state))
     = {1, 2, 3, 4, 5} \<and>
   used_cards texas flop_state = {1, 2, 3, 4, 5} \<and>
   (\<exists>cards n. create_deck texas flop_state = Inr (cards, n) \<and> distinct (take n cards) \<and>
      set (take n cards) = {1 .. 52} - {1, 2, 3, 4, 5} \<and>
      set (take n cards) \<inter> {1, 2, 3, 4, 5} = {})"
proof -
  have w: "wf_GameState texas flop_state"
    by (simp add: wf_GameState_def texas_def flop_state_def)
  have k: "NUM_DECK texas \<le> 52"
    by (simp add: texas_def)
  have h: "set (hand flop_state) \<union> set (take (nat (communitysize flop_state)) (community flop_state))
             = {1, 2, 3, 4, 5}"
    by (auto simp add: flop_state_def)
  have u: "used_cards texas flop_state = {1, 2, 3, 4, 5}"
    by code_simp
  have n: "int (NUM_DECK texas) = 52"
    by (simp add: texas_def)
  show ?thesis
    using create_deck_unused_cards [OF w k] w k h u n by auto
qed

section \<open>Properties of one simulated game\<close>

lemma BestOpponentHand_loop_Max:
  "BestOpponentHand_loop H opps mx = Max (insert mx (H ` set opps))"
proof (induction opps arbitrary: mx)
  case Nil
  show ?case by simp
next
  case (Cons opp opps)
  have "(if mx < H opp then H opp else mx) = max mx (H opp)"
    by (simp add: max_def)
  then have "BestOpponentHand_loop H (opp # opps) mx
               = Max (insert (max mx (H opp)) (H ` set opps))"
    by (simp add: Cons.IH Let_def)
  also have "\<dots> = Max (insert mx (insert (H opp) (H ` set opps)))"
    by (cases "H ` set opps = {}") (simp_all add: max.assoc)
  finally show ?case
    by simp
qed

lemma BestOpponentHand_Max: "BestOpponentHand H opps = Max (insert 0 (H ` set opps))"
  by (simp add: BestOpponentHand_def BestOpponentHand_loop_Max)

lemma Max_insert_less_iff:
  "Max (insert (0::int) (H ` set opps)) < m \<longleftrightarrow> 0 < m \<and> list_all (\<lambda>opp. H opp < m) opps"
  by (auto simp add: list_all_iff)

lemma AI_WIN_neq_AI_LOSE: "AI_WIN \<noteq> AI_LOSE"
  by (simp add: AI_WIN_def AI_LOSE_def)

text \<open>
  What the code computes. \<open>BestOpponentHand\<close> starts its maximum at 0, so it returns the
  maximum of 0 and the opponents' scores, and a simulated game is a win exactly when
  the agent's score is strictly greater than that.
\<close>

lemma SimulateSingleGame_outcome:
  assumes "deal_game K g R = Inr (me, opponents)"
  shows "SimulateSingleGame K H g R
           = Inr (if Max (insert 0 (H ` set opponents)) < H me then AI_WIN else AI_LOSE)"
    and "SimulateSingleGame K H g R = Inr AI_WIN
           \<longleftrightarrow> 0 < H me \<and> wins_by_spec H me opponents"
proof -
  show r: "SimulateSingleGame K H g R
             = Inr (if Max (insert 0 (H ` set opponents)) < H me then AI_WIN else AI_LOSE)"
    using assms by (simp add: SimulateSingleGame_def BestOpponentHand_Max Let_def)
  show "(SimulateSingleGame K H g R = Inr AI_WIN)
          \<longleftrightarrow> 0 < H me \<and> wins_by_spec H me opponents"
    unfolding r wins_by_spec_def Max_insert_less_iff [symmetric]
    using AI_WIN_neq_AI_LOSE by auto
qed


text \<open>
  X2. Where the agent's score is positive the code follows the rule: the game is a win
  exactly when the agent's score is strictly greater than the score of every opponent,
  and a game in which the agent's score equals the greatest opponent score is a loss.
\<close>

theorem SimulateSingleGame_positive_scores:
  assumes "deal_game K g R = Inr (me, opponents)" and "0 < H me"
  shows "(SimulateSingleGame K H g R = Inr AI_WIN \<longleftrightarrow> wins_by_spec H me opponents) \<and>
         (opponents \<noteq> [] \<and> H me = Max (H ` set opponents) \<longrightarrow>
            SimulateSingleGame K H g R = Inr AI_LOSE)"
proof -
  from SimulateSingleGame_outcome(2) [OF assms(1)] assms(2)
  have w: "SimulateSingleGame K H g R = Inr AI_WIN \<longleftrightarrow> wins_by_spec H me opponents"
    by simp
  have "SimulateSingleGame K H g R = Inr AI_LOSE"
    if "opponents \<noteq> []" and "H me = Max (H ` set opponents)"
  proof -
    from that have "H me \<in> H ` set opponents"
      using Max_in [of "H ` set opponents"] by simp
    then have "H me \<le> Max (insert 0 (H ` set opponents))"
      by (intro Max_ge) simp_all
    then have n: "\<not> Max (insert 0 (H ` set opponents)) < H me"
      by (simp only: not_less)
    show ?thesis
      unfolding SimulateSingleGame_outcome(1) [OF assms(1)] using n by (simp only: if_False)
  qed
  with w show ?thesis
    by blast
qed

theorem SimulateSingleGame_positive_scores_witness:
  "deal_game texas flop_state (\<lambda>k. 7 * k + 3)
     = Inr ([1, 2, 3, 4, 5, 9, 16], [[23, 30, 3, 4, 5, 9, 16], [37, 44, 3, 4, 5, 9, 16]]) \<and>
   sum_score 1000 [1, 2, 3, 4, 5, 9, 16] = 960 \<and>
   sum_score 1000 [23, 30, 3, 4, 5, 9, 16] = 910 \<and>
   sum_score 1000 [37, 44, 3, 4, 5, 9, 16] = 882 \<and>
   SimulateSingleGame texas (sum_score 1000) flop_state (\<lambda>k. 7 * k + 3) = Inr AI_WIN"
proof -
  have d: "deal_game texas flop_state (\<lambda>k. 7 * k + 3)
     = Inr ([1, 2, 3, 4, 5, 9, 16], [[23, 30, 3, 4, 5, 9, 16], [37, 44, 3, 4, 5, 9, 16]])"
    by code_simp
  have p: "0 < sum_score 1000 [1, 2, 3, 4, 5, 9, 16]"
    by (simp add: sum_score_def)
  show ?thesis
    using SimulateSingleGame_positive_scores [where H = "sum_score 1000", OF d p] d
    by (simp add: sum_score_def wins_by_spec_def)
qed

section \<open>Properties of the worker and of the totals\<close>

lemma SimulateSingleGame_result: "SimulateSingleGame K H g R = Inr r \<Longrightarrow> r = 0 \<or> r = 1"
  by (auto simp add: SimulateSingleGame_def AI_WIN_def AI_LOSE_def Let_def
      split: sum.splits if_splits)

lemma loop_exit:
  assumes "simulated s mod 1000 = 0" and "of_int (timeout ai) < T (length (clock_reads s))"
  shows "SimulateGames_loop (Suc fuel) K H ai T R s
           = Inr (s\<lparr>clock_reads := clock_reads s @ [simulated s]\<rparr>)"
  using assms by simp

lemma loop_continue:
  assumes "\<not> (simulated s mod 1000 = 0 \<and> of_int (timeout ai) < T (length (clock_reads s)))"
    and "SimulateSingleGame K H (game ai) (R (nat (simulated s))) = Inr r"
    and "won s + r \<le> INT_MAX" and "simulated s + 1 \<le> INT_MAX"
  shows "SimulateGames_loop (Suc fuel) K H ai T R s
           = SimulateGames_loop fuel K H ai T R (next_state s r)"
  using assms by (auto simp add: next_state_def Let_def)

lemma loop_cases:
  assumes "SimulateGames_loop (Suc fuel) K H ai T R s = Inr s'"
  shows "(simulated s mod 1000 = 0 \<and> of_int (timeout ai) < T (length (clock_reads s)) \<and>
          s' = s\<lparr>clock_reads := clock_reads s @ [simulated s]\<rparr>) \<or>
         (\<not> (simulated s mod 1000 = 0 \<and> of_int (timeout ai) < T (length (clock_reads s))) \<and>
          (\<exists>r. SimulateSingleGame K H (game ai) (R (nat (simulated s))) = Inr r \<and>
               won s + r \<le> INT_MAX \<and> simulated s + 1 \<le> INT_MAX \<and>
               SimulateGames_loop fuel K H ai T R (next_state s r) = Inr s'))"
proof (cases "simulated s mod 1000 = 0 \<and> of_int (timeout ai) < T (length (clock_reads s))")
  case True
  with assms show ?thesis
    by auto
next
  case False
  with assms obtain r where
    r: "SimulateSingleGame K H (game ai) (R (nat (simulated s))) = Inr r"
    by (cases "SimulateSingleGame K H (game ai) (R (nat (simulated s)))") (auto simp add: Let_def)
  with assms False have b: "won s + r \<le> INT_MAX" "simulated s + 1 \<le> INT_MAX"
    by (auto simp add: Let_def split: if_splits)
  have "SimulateGames_loop (Suc fuel) K H ai T R s
          = SimulateGames_loop fuel K H ai T R (next_state s r)"
    using False r b by (rule loop_continue)
  with assms r False b show ?thesis
    by auto
qed

declare SimulateGames_loop.simps [simp del]

lemma loop_tally:
  "SimulateGames_loop fuel K H ai T R s = Inr s' \<Longrightarrow>
   0 \<le> won s \<Longrightarrow> won s \<le> simulated s \<Longrightarrow> simulated s \<le> INT_MAX \<Longrightarrow>
   0 \<le> won s' \<and> won s' \<le> simulated s' \<and> simulated s' \<le> INT_MAX"
proof (induction fuel arbitrary: s)
  case 0
  then show ?case
    by (simp add: SimulateGames_loop.simps)
next
  case (Suc fuel)
  from loop_cases [OF Suc.prems(1)] show ?case
  proof (elim disjE conjE exE)
    assume "s' = s\<lparr>clock_reads := clock_reads s @ [simulated s]\<rparr>"
    with Suc.prems show ?thesis
      by auto
  next
    fix r
    assume r: "SimulateSingleGame K H (game ai) (R (nat (simulated s))) = Inr r"
      and b: "won s + r \<le> INT_MAX" "simulated s + 1 \<le> INT_MAX"
      and l: "SimulateGames_loop fuel K H ai T R (next_state s r) = Inr s'"
    from SimulateSingleGame_result [OF r] Suc.prems
    have "0 \<le> won (next_state s r)" "won (next_state s r) \<le> simulated (next_state s r)"
      by (auto simp add: next_state_def)
    moreover from b have "simulated (next_state s r) \<le> INT_MAX"
      by (simp add: next_state_def)
    ultimately show ?thesis
      by (rule Suc.IH [OF l])
  qed
qed


lemma checks_at_multiple:
  fixes n :: int
  assumes "0 \<le> n" and "n mod 1000 = 0"
  shows "nat ((n + 999) div 1000) = nat (n div 1000)"
    and "nat ((n + 1 + 999) div 1000) = Suc (nat (n div 1000))"
    and "1000 * int (nat (n div 1000)) = n"
proof -
  from assms have q: "n = 1000 * (n div 1000)" "0 \<le> n div 1000"
    by auto
  have "(1000 * (n div 1000) + 999) div 1000 = n div 1000"
    by simp
  with q(1) show "nat ((n + 999) div 1000) = nat (n div 1000)"
    by simp
  have "(1000 * (n div 1000) + 1 + 999) div 1000 = n div 1000 + 1"
    by simp
  with q show "nat ((n + 1 + 999) div 1000) = Suc (nat (n div 1000))"
    by (simp add: Suc_nat_eq_nat_zadd1)
  from q show "1000 * int (nat (n div 1000)) = n"
    by simp
qed

lemma checks_between:
  fixes n :: int
  assumes "n mod 1000 \<noteq> 0"
  shows "(n + 1 + 999) div 1000 = (n + 999) div 1000"
proof -
  have r: "0 \<le> n mod 1000 - 1" "n mod 1000 - 1 < 1000"
    using assms pos_mod_sign [of 1000 n] pos_mod_bound [of 1000 n] by simp_all
  have "n + 999 = 1000 * (n div 1000 + 1) + (n mod 1000 - 1)"
    using mult_div_mod_eq [of 1000 n] by simp
  from int_div_pos_eq [OF this r] have "(n + 999) div 1000 = n div 1000 + 1" .
  moreover have "(n + 1 + 999) div 1000 = n div 1000 + 1"
    by simp
  ultimately show ?thesis
    by simp
qed

lemma clock_inv_exit:
  assumes "clock_inv ai T s" and "simulated s mod 1000 = 0"
  shows "clock_reads s @ [simulated s]
           = map (\<lambda>k. 1000 * int k) [0 ..< Suc (nat (simulated s div 1000))]"
    and "length (clock_reads s) = nat (simulated s div 1000)"
    and "\<forall>k < nat (simulated s div 1000). T k \<le> of_int (timeout ai)"
  using assms checks_at_multiple [of "simulated s"] by (simp_all add: clock_inv_def)

lemma clock_inv_next:
  assumes "clock_inv ai T s"
    and "\<not> (simulated s mod 1000 = 0 \<and> of_int (timeout ai) < T (length (clock_reads s)))"
  shows "clock_inv ai T (next_state s r)"
proof (cases "simulated s mod 1000 = 0")
  case True
  note e = clock_inv_exit [OF assms(1) True]
  from assms(2) True e(2) have "T (nat (simulated s div 1000)) \<le> of_int (timeout ai)"
    by simp
  with e(3) have "\<forall>k < Suc (nat (simulated s div 1000)). T k \<le> of_int (timeout ai)"
    by (simp add: less_Suc_eq)
  with assms(1) True e(1) checks_at_multiple(2) [of "simulated s"] show ?thesis
    by (simp add: clock_inv_def next_state_def)
next
  case False
  with assms(1) checks_between [OF False] show ?thesis
    by (simp add: clock_inv_def next_state_def)
qed

lemma loop_clock:
  "SimulateGames_loop fuel K H ai T R s = Inr s' \<Longrightarrow> clock_inv ai T s \<Longrightarrow>
   simulated s' mod 1000 = 0 \<and> 0 \<le> simulated s' \<and>
   clock_reads s' = map (\<lambda>k. 1000 * int k) [0 ..< Suc (nat (simulated s' div 1000))] \<and>
   of_int (timeout ai) < T (nat (simulated s' div 1000)) \<and>
   (\<forall>k < nat (simulated s' div 1000). T k \<le> of_int (timeout ai))"
proof (induction fuel arbitrary: s)
  case 0
  then show ?case
    by (simp add: SimulateGames_loop.simps)
next
  case (Suc fuel)
  from loop_cases [OF Suc.prems(1)] show ?case
  proof (elim disjE conjE exE)
    assume m: "simulated s mod 1000 = 0"
      and t: "of_int (timeout ai) < T (length (clock_reads s))"
      and s': "s' = s\<lparr>clock_reads := clock_reads s @ [simulated s]\<rparr>"
    note e = clock_inv_exit [OF Suc.prems(2) m]
    from Suc.prems(2) have "0 \<le> simulated s"
      by (simp add: clock_inv_def)
    with m t s' e show ?thesis
      by simp
  next
    fix r
    assume n: "\<not> (simulated s mod 1000 = 0 \<and> of_int (timeout ai) < T (length (clock_reads s)))"
      and l: "SimulateGames_loop fuel K H ai T R (next_state s r) = Inr s'"
    from Suc.IH [OF l clock_inv_next [OF Suc.prems(2) n]] show ?thesis .
  qed
qed

lemma clock_inv_init: "clock_inv ai T \<lparr>simulated = 0, won = 0, clock_reads = []\<rparr>"
  by (simp add: clock_inv_def)

lemma loop_run:
  assumes games: "\<forall>j. \<exists>r. SimulateSingleGame K H (game ai) (R j) = Inr r"
    and late: "of_int (timeout ai) < T k"
    and early: "\<forall>i < k. T i \<le> of_int (timeout ai)"
    and fits: "1000 * int k \<le> INT_MAX"
  shows "clock_inv ai T s \<Longrightarrow> 0 \<le> won s \<Longrightarrow> won s \<le> simulated s \<Longrightarrow>
         simulated s \<le> 1000 * int k \<Longrightarrow> nat (1000 * int k - simulated s) < fuel \<Longrightarrow>
         \<exists>s'. SimulateGames_loop fuel K H ai T R s = Inr s' \<and> simulated s' = 1000 * int k"
proof (induction fuel arbitrary: s)
  case 0
  then show ?case
    by simp
next
  case (Suc fuel)
  show ?case
  proof (cases "simulated s mod 1000 = 0 \<and> of_int (timeout ai) < T (length (clock_reads s))")
    case True
    note e = clock_inv_exit [OF Suc.prems(1) True [THEN conjunct1]]
    from Suc.prems(1) have n: "0 \<le> simulated s"
      by (simp add: clock_inv_def)
    have "\<not> nat (simulated s div 1000) < k"
      using early True e(2) by auto
    then have "int k \<le> int (nat (simulated s div 1000))"
      by (simp only: not_less of_nat_le_iff)
    moreover have "1000 * int (nat (simulated s div 1000)) = simulated s"
      using n True [THEN conjunct1] by (rule checks_at_multiple(3))
    ultimately have "simulated s = 1000 * int k"
      using Suc.prems(4) by linarith
    moreover have "SimulateGames_loop (Suc fuel) K H ai T R s
        = Inr (s\<lparr>clock_reads := clock_reads s @ [simulated s]\<rparr>)"
      using True [THEN conjunct1] True [THEN conjunct2] by (rule loop_exit)
    ultimately show ?thesis
      by simp
  next
    case False
    from games obtain r where
      r: "SimulateSingleGame K H (game ai) (R (nat (simulated s))) = Inr r"
      by blast
    from SimulateSingleGame_result [OF r] have r01: "r = 0 \<or> r = 1" .
    from Suc.prems(1) have n: "0 \<le> simulated s"
      by (simp add: clock_inv_def)
    have lt: "simulated s < 1000 * int k"
    proof (rule ccontr)
      assume "\<not> simulated s < 1000 * int k"
      with Suc.prems(4) have eq: "simulated s = 1000 * int k"
        by simp
      then have m: "simulated s mod 1000 = 0"
        by simp
      note e = clock_inv_exit [OF Suc.prems(1) m]
      from eq e(2) have "length (clock_reads s) = k"
        by simp
      with late m False show False
        by simp
    qed
    with fits r01 Suc.prems(3) have b: "won s + r \<le> INT_MAX" "simulated s + 1 \<le> INT_MAX"
      by auto
    have step: "SimulateGames_loop (Suc fuel) K H ai T R s
          = SimulateGames_loop fuel K H ai T R (next_state s r)"
      using False r b by (rule loop_continue)
    have "clock_inv ai T (next_state s r)"
      using Suc.prems(1) False by (rule clock_inv_next)
    moreover have "0 \<le> won (next_state s r)" "won (next_state s r) \<le> simulated (next_state s r)"
      using r01 Suc.prems(2,3) by (auto simp add: next_state_def)
    moreover have "simulated (next_state s r) \<le> 1000 * int k"
      using lt by (simp add: next_state_def)
    moreover have "nat (1000 * int k - simulated (next_state s r)) < fuel"
      using Suc.prems(5) lt by (simp add: next_state_def)
    ultimately show ?thesis
      unfolding step by (rule Suc.IH)
  qed
qed

lemma SimulateGames_tally:
  assumes "SimulateGames fuel K H T R ai = Inr (s, ai')"
  shows "0 \<le> won s \<and> won s \<le> simulated s \<and>
         games_won ai' = games_won ai + won s \<and>
         games_simulated ai' = games_simulated ai + simulated s \<and>
         games_simulated ai' \<le> INT_MAX"
proof -
  from assms obtain s0 where
    l: "SimulateGames_loop fuel K H ai T R \<lparr>simulated = 0, won = 0, clock_reads = []\<rparr> = Inr s0"
    by (cases "SimulateGames_loop fuel K H ai T R \<lparr>simulated = 0, won = 0, clock_reads = []\<rparr>")
      (auto simp add: SimulateGames_def)
  with assms have e: "s0 = s" "ai' = ai\<lparr>games_won := games_won ai + won s,
      games_simulated := games_simulated ai + simulated s\<rparr>"
    "games_simulated ai + simulated s \<le> INT_MAX"
    by (auto simp add: SimulateGames_def split: if_splits)
  from loop_tally [OF l] have "0 \<le> won s0 \<and> won s0 \<le> simulated s0"
    by (simp add: INT_MAX_def)
  with e show ?thesis
    by simp
qed

lemma join_workers_tally:
  "join_workers fuel K H T R threads ai = Inr ai' \<Longrightarrow>
   0 \<le> games_won ai \<Longrightarrow> games_won ai \<le> games_simulated ai \<Longrightarrow>
   0 \<le> games_won ai' \<and> games_won ai' \<le> games_simulated ai'"
proof (induction threads arbitrary: ai)
  case Nil
  then show ?case
    by simp
next
  case (Cons i threads)
  from Cons.prems(1) obtain s ai1 where
    w: "SimulateGames fuel K H (T i) (R i) ai = Inr (s, ai1)" and
    j: "join_workers fuel K H T R threads ai1 = Inr ai'"
    by (cases "SimulateGames fuel K H (T i) (R i) ai") auto
  from SimulateGames_tally [OF w] Cons.prems(2,3)
  have "0 \<le> games_won ai1" "games_won ai1 \<le> games_simulated ai1"
    by simp_all
  with j show ?case
    by (rule Cons.IH)
qed

lemma SimulateGames_run:
  assumes games: "\<forall>j. \<exists>r. SimulateSingleGame K H (game ai) (R j) = Inr r"
    and late: "of_int (timeout ai) < T k"
    and early: "\<forall>i < k. T i \<le> of_int (timeout ai)"
    and fuel: "1000 * k < fuel"
    and totals: "0 \<le> games_won ai" "games_won ai \<le> games_simulated ai"
      "games_simulated ai + 1000 * int k \<le> INT_MAX"
  shows "\<exists>s. SimulateGames fuel K H T R ai
               = Inr (s, ai\<lparr>games_won := games_won ai + won s,
                             games_simulated := games_simulated ai + 1000 * int k\<rparr>) \<and>
             simulated s = 1000 * int k"
proof -
  from totals have fits: "1000 * int k \<le> INT_MAX"
    by simp
  have "nat (1000 * int k - simulated \<lparr>simulated = 0, won = 0, clock_reads = []\<rparr>) < fuel"
    using fuel by (simp add: nat_mult_distrib)
  with loop_run [OF games late early fits clock_inv_init] obtain s where
    l: "SimulateGames_loop fuel K H ai T R \<lparr>simulated = 0, won = 0, clock_reads = []\<rparr> = Inr s"
    and n: "simulated s = 1000 * int k"
    by auto
  from loop_tally [OF l] have "0 \<le> won s \<and> won s \<le> simulated s"
    by (simp add: INT_MAX_def)
  with l n totals show ?thesis
    by (auto simp add: SimulateGames_def)
qed

lemma river_game: "SimulateSingleGame texas (sum_score 1000) river_state (\<lambda>k. 0) = Inr AI_WIN"
  by code_simp

text \<open>
  C6. A simulated game returns 0 or 1. The tally of a worker that has finished has
  \<open>0 \<le> won \<le> simulated\<close>, and the worker adds it to the totals. The totals after
  all workers have finished, from 0 and 0, have
  \<open>0 \<le> games_won \<le> games_simulated\<close>.
\<close>

theorem tallies_invariant:
  "(SimulateSingleGame K H g R0 = Inr r \<longrightarrow> r = 0 \<or> r = 1) \<and>
   (SimulateGames fuel K H T1 R1 ai = Inr (s, ai1) \<longrightarrow>
      0 \<le> simulated s \<and> 0 \<le> won s \<and> won s \<le> simulated s \<and>
      games_won ai1 = games_won ai + won s \<and>
      games_simulated ai1 = games_simulated ai + simulated s) \<and>
   (SpawnMonteCarloThreads fuel K H T R (ai\<lparr>games_won := 0, games_simulated := 0\<rparr>) = Inr ai2 \<longrightarrow>
      0 \<le> games_simulated ai2 \<and> 0 \<le> games_won ai2 \<and> games_won ai2 \<le> games_simulated ai2)"
proof (intro conjI impI)
  assume "SimulateSingleGame K H g R0 = Inr r"
  then show "r = 0 \<or> r = 1"
    by (rule SimulateSingleGame_result)
next
  assume w: "SimulateGames fuel K H T1 R1 ai = Inr (s, ai1)"
  from SimulateGames_tally [OF w]
  show "0 \<le> simulated s" "0 \<le> won s" "won s \<le> simulated s"
    "games_won ai1 = games_won ai + won s"
    "games_simulated ai1 = games_simulated ai + simulated s"
    by simp_all
next
  assume "SpawnMonteCarloThreads fuel K H T R (ai\<lparr>games_won := 0, games_simulated := 0\<rparr>) = Inr ai2"
  then have "0 \<le> games_won ai2 \<and> games_won ai2 \<le> games_simulated ai2"
    unfolding SpawnMonteCarloThreads_def by (rule join_workers_tally) simp_all
  then show "0 \<le> games_simulated ai2" "0 \<le> games_won ai2" "games_won ai2 \<le> games_simulated ai2"
    by simp_all
qed

theorem tallies_invariant_witness:
  "\<exists>ai2. SpawnMonteCarloThreads 1001 texas (sum_score 1000) (\<lambda>i n. if n = 0 then 0 else 5)
            (\<lambda>i j k. 0) (ai0\<lparr>games_won := 0, games_simulated := 0\<rparr>) = Inr ai2 \<and>
         games_simulated ai2 = 2000 \<and> 0 \<le> games_won ai2 \<and> games_won ai2 \<le> 2000"
proof -
  let ?T = "\<lambda>n :: nat. if n = 0 then 0 else 5 :: rat"
  let ?R = "\<lambda>(j :: nat) (k :: nat). 0 :: nat"
  let ?a = "ai0\<lparr>games_won := 0, games_simulated := 0\<rparr>"
  have g: "\<forall>j. \<exists>r. SimulateSingleGame texas (sum_score 1000) (game a) (?R j) = Inr r"
    if "game a = river_state" for a :: PokerAI
    using river_game that by simp
  have "game ?a = river_state" "timeout ?a = 1"
    by (simp_all add: ai0_def)
  then obtain s1 a1 where
    w1: "SimulateGames 1001 texas (sum_score 1000) ?T ?R ?a = Inr (s1, a1)" and
    a1: "a1 = ?a\<lparr>games_won := games_won ?a + won s1, games_simulated := games_simulated ?a + 1000 * int 1\<rparr>"
    using SimulateGames_run [of texas "sum_score 1000" ?a ?R ?T 1 1001] g [of ?a]
    by (auto simp add: INT_MAX_def)
  from SimulateGames_tally [OF w1] a1 have t1: "0 \<le> games_won a1" "games_won a1 \<le> games_simulated a1"
    "games_simulated a1 = 1000" "game a1 = river_state" "timeout a1 = 1"
    by (simp_all add: ai0_def)
  then obtain s2 a2 where
    w2: "SimulateGames 1001 texas (sum_score 1000) ?T ?R a1 = Inr (s2, a2)" and
    a2: "a2 = a1\<lparr>games_won := games_won a1 + won s2, games_simulated := games_simulated a1 + 1000 * int 1\<rparr>"
    using SimulateGames_run [of texas "sum_score 1000" a1 ?R ?T 1 1001] g [of a1]
    by (auto simp add: INT_MAX_def)
  have n: "[0 ..< nat (num_threads ?a)] = [0, 1]"
    by (simp add: ai0_def upt_rec)
  have sp: "SpawnMonteCarloThreads 1001 texas (sum_score 1000) (\<lambda>i. ?T) (\<lambda>i. ?R) ?a = Inr a2"
    unfolding SpawnMonteCarloThreads_def n using w1 w2 by simp
  from tallies_invariant [where fuel = 1001 and K = texas and H = "sum_score 1000"
      and T = "\<lambda>i. ?T" and R = "\<lambda>i. ?R" and ai = ai0 and ?ai2.0 = a2] sp a2 t1
  show ?thesis
    by auto
qed

text \<open>
  C8. A worker that has finished has read the clock exactly at the iterations with
  \<open>simulated = 0, 1000, 2000, \<dots>\<close>, up to the final value of \<open>simulated\<close>, which is a
  multiple of 1000; the last reading was beyond the timeout and no reading before it
  was. Conversely, when no game faults, when reading number \<open>k\<close> is the first beyond
  the timeout and \<open>1000 * k\<close> is an \<^verbatim>\<open>int\<close>, the worker finishes, with
  \<open>simulated = 1000 * k\<close>.
\<close>

theorem SimulateGames_loop_deadline_checks:
  "(SimulateGames_loop fuel K H ai T R \<lparr>simulated = 0, won = 0, clock_reads = []\<rparr> = Inr s \<longrightarrow>
      (\<forall>c \<in> set (clock_reads s). c mod 1000 = 0) \<and>
      clock_reads s = map (\<lambda>k. 1000 * int k) [0 ..< Suc (nat (simulated s div 1000))] \<and>
      simulated s mod 1000 = 0 \<and>
      of_int (timeout ai) < T (nat (simulated s div 1000)) \<and>
      (\<forall>k < nat (simulated s div 1000). T k \<le> of_int (timeout ai))) \<and>
   ((\<forall>j. \<exists>r. SimulateSingleGame K H (game ai) (R j) = Inr r) \<and>
    of_int (timeout ai) < T k \<and> (\<forall>i < k. T i \<le> of_int (timeout ai)) \<and>
    1000 * int k \<le> INT_MAX \<and> 1000 * k < fuel \<longrightarrow>
      (\<exists>s'. SimulateGames_loop fuel K H ai T R \<lparr>simulated = 0, won = 0, clock_reads = []\<rparr> = Inr s' \<and>
            simulated s' = 1000 * int k))"
proof (intro conjI impI)
  assume l: "SimulateGames_loop fuel K H ai T R \<lparr>simulated = 0, won = 0, clock_reads = []\<rparr> = Inr s"
  note c = loop_clock [OF l clock_inv_init]
  from c show "clock_reads s = map (\<lambda>k. 1000 * int k) [0 ..< Suc (nat (simulated s div 1000))]"
    "simulated s mod 1000 = 0"
    "of_int (timeout ai) < T (nat (simulated s div 1000))"
    "\<forall>k < nat (simulated s div 1000). T k \<le> of_int (timeout ai)"
    by simp_all
  have "\<forall>c \<in> set (map (\<lambda>k. 1000 * int k) [0 ..< Suc (nat (simulated s div 1000))]). c mod 1000 = 0"
    by simp
  with c show "\<forall>c \<in> set (clock_reads s). c mod 1000 = 0"
    by simp
next
  assume a: "(\<forall>j. \<exists>r. SimulateSingleGame K H (game ai) (R j) = Inr r) \<and>
    of_int (timeout ai) < T k \<and> (\<forall>i < k. T i \<le> of_int (timeout ai)) \<and>
    1000 * int k \<le> INT_MAX \<and> 1000 * k < fuel"
  then have "nat (1000 * int k - simulated \<lparr>simulated = 0, won = 0, clock_reads = []\<rparr>) < fuel"
    by (simp add: nat_mult_distrib)
  with a loop_run [where K = K and H = H and ai = ai and R = R and T = T and k = k
      and s = "\<lparr>simulated = 0, won = 0, clock_reads = []\<rparr>" and fuel = fuel]
    clock_inv_init [of ai T]
  show "\<exists>s'. SimulateGames_loop fuel K H ai T R \<lparr>simulated = 0, won = 0, clock_reads = []\<rparr> = Inr s' \<and>
            simulated s' = 1000 * int k"
    by auto
qed

theorem SimulateGames_loop_deadline_checks_witness:
  "\<exists>s. SimulateGames_loop 1001 texas (sum_score 1000) ai0 (\<lambda>n. if n = 0 then 0 else 5) (\<lambda>j k. 0)
          \<lparr>simulated = 0, won = 0, clock_reads = []\<rparr> = Inr s \<and>
        simulated s = 1000 \<and> clock_reads s = [0, 1000]"
proof -
  let ?T = "\<lambda>n :: nat. if n = 0 then 0 else 5 :: rat"
  let ?R = "\<lambda>(j :: nat) (k :: nat). 0 :: nat"
  have g: "\<forall>j. \<exists>r. SimulateSingleGame texas (sum_score 1000) (game ai0) (?R j) = Inr r"
    using river_game by (simp add: ai0_def)
  have t: "of_int (timeout ai0) < ?T 1" "\<forall>i < 1. ?T i \<le> of_int (timeout ai0)"
    by (simp_all add: ai0_def)
  from SimulateGames_loop_deadline_checks [where fuel = 1001 and K = texas
      and H = "sum_score 1000" and ai = ai0 and T = ?T and R = ?R and k = 1, THEN conjunct2] g t
  obtain s where
    l: "SimulateGames_loop 1001 texas (sum_score 1000) ai0 ?T ?R
          \<lparr>simulated = 0, won = 0, clock_reads = []\<rparr> = Inr s" and
    n: "simulated s = 1000"
    by (auto simp add: INT_MAX_def)
  from SimulateGames_loop_deadline_checks [where fuel = 1001 and K = texas
      and H = "sum_score 1000" and ai = ai0 and T = ?T and R = ?R and s = s, THEN conjunct1] l n
  have "clock_reads s = [0, 1000]"
    by (simp add: upt_rec)
  with l n show ?thesis
    by blast
qed

section \<open>Properties of the double-precision arithmetic\<close>

text \<open>
  The rounding is what it is said to be: \<open>ilog2\<close> finds the binade, the result is within
  half a unit in the last place, and every \<^verbatim>\<open>int\<close> is converted exactly.
\<close>

lemma round_half_even_bounds:
  "of_int (round_half_even m) \<le> m + 1 / 2"
  "m - 1 / 2 \<le> of_int (round_half_even m)"
  "0 \<le> m \<Longrightarrow> 0 \<le> round_half_even m"
proof -
  define f where "f = \<lfloor>m\<rfloor>"
  have f: "of_int f \<le> m" "m < of_int f + 1"
    unfolding f_def by linarith+
  have c: "round_half_even m = f \<and> m - of_int f \<le> 1 / 2 \<or>
           round_half_even m = f + 1 \<and> 1 / 2 \<le> m - of_int f"
    unfolding round_half_even_def Let_def f_def [symmetric] by auto
  from c f show "of_int (round_half_even m) \<le> m + 1 / 2"
    by (elim disjE conjE) simp_all
  from c f show "m - 1 / 2 \<le> of_int (round_half_even m)"
    by (elim disjE conjE) simp_all
  show "0 \<le> round_half_even m" if "0 \<le> m"
  proof -
    from that have "0 \<le> f"
      by (simp add: f_def)
    with c show ?thesis
      by auto
  qed
qed

lemma round_half_even_of_int: "round_half_even (of_int z) = z"
  by (simp add: round_half_even_def)

lemma ilog2_correct:
  assumes "0 < a"
  shows "2 powi (ilog2 a) \<le> a \<and> a < 2 powi (ilog2 a + 1)"
proof (cases "1 \<le> a")
  case True
  define n where "n = \<lfloor>a\<rfloor>"
  from True have n: "1 \<le> n"
    by (simp add: n_def)
  then have "0 < n"
    by simp
  from bitlen_bounds [OF this] have b: "2 ^ nat (bitlen n - 1) \<le> n" "n < 2 ^ nat (bitlen n)"
    by simp_all
  from n have b1: "1 \<le> bitlen n"
    by (simp add: bitlen_ge_iff_power)
  have e: "ilog2 a = bitlen n - 1"
    using True by (simp add: ilog2_def n_def)
  have "(2 :: rat) powi (bitlen n - 1) = of_int (2 ^ nat (bitlen n - 1))"
    using b1 by (simp add: power_int_nonneg_exp)
  also have "\<dots> \<le> of_int n"
    using b(1) by (simp only: of_int_le_iff)
  also have "\<dots> \<le> a"
    by (simp add: n_def)
  finally have lo: "2 powi (ilog2 a) \<le> a"
    by (simp only: e)
  have "a < of_int (n + 1)"
    unfolding n_def by linarith
  also from b(2) have "n + 1 \<le> 2 ^ nat (bitlen n)"
    by simp
  then have "(of_int (n + 1) :: rat) \<le> of_int (2 ^ nat (bitlen n))"
    by (simp only: of_int_le_iff)
  also have "(of_int (2 ^ nat (bitlen n)) :: rat) = 2 powi (bitlen n)"
    using b1 by (simp add: power_int_nonneg_exp)
  finally have "a < 2 powi (ilog2 a + 1)"
    by (simp add: e)
  with lo show ?thesis
    by simp
next
  case False
  define m where "m = \<lceil>1 / a\<rceil> - 1"
  define k where "k = bitlen m"
  from assms False have inv: "1 < 1 / a"
    by simp
  then have "2 \<le> \<lceil>1 / a\<rceil>"
    by (simp add: le_ceiling_iff)
  then have m: "0 < m"
    by (simp add: m_def)
  from bitlen_bounds [OF this] have b: "2 ^ nat (k - 1) \<le> m" "m < 2 ^ nat k"
    by (simp_all add: k_def)
  from m have k1: "1 \<le> k"
    by (simp add: k_def bitlen_ge_iff_power)
  have e: "ilog2 a = - k"
    using False by (simp add: ilog2_def m_def k_def)
  have "1 / a \<le> of_int (m + 1)"
    unfolding m_def by simp
  also from b(2) have "m + 1 \<le> 2 ^ nat k"
    by simp
  then have "(of_int (m + 1) :: rat) \<le> of_int (2 ^ nat k)"
    by (simp only: of_int_le_iff)
  also have "(of_int (2 ^ nat k) :: rat) = 2 powi k"
    using k1 by (simp add: power_int_nonneg_exp)
  finally have "1 / a \<le> 2 powi k" .
  with assms have "1 \<le> 2 powi k * a"
    by (simp add: field_simps)
  then have "1 / 2 powi k \<le> a"
    by (simp add: field_simps)
  then have lo: "2 powi (ilog2 a) \<le> a"
    by (simp add: e power_int_minus_divide)
  have "(2 :: rat) powi (k - 1) = of_int (2 ^ nat (k - 1))"
    using k1 by (simp add: power_int_nonneg_exp)
  also have "\<dots> \<le> of_int m"
    using b(1) by (simp only: of_int_le_iff)
  also have "of_int m < 1 / a"
    unfolding m_def by linarith
  finally have "2 powi (k - 1) * a < 1"
    using assms by (simp add: field_simps)
  then have "a < 1 / 2 powi (k - 1)"
    by (simp add: field_simps)
  also have "1 / (2 :: rat) powi (k - 1) = 2 powi (- k + 1)"
    using power_int_minus_divide [of "2 :: rat" "k - 1"] by simp
  finally have "a < 2 powi (ilog2 a + 1)"
    by (simp only: e)
  with lo show ?thesis
    by simp
qed

lemma ilog2_le:
  assumes "0 < x" and "x < 2 powi (k + 1)"
  shows "ilog2 x \<le> k"
proof -
  from ilog2_correct [OF assms(1)] assms(2) have "(2 :: rat) powi (ilog2 x) < 2 powi (k + 1)"
    by simp
  show ?thesis
  proof (rule ccontr)
    assume "\<not> ilog2 x \<le> k"
    then have "k + 1 \<le> ilog2 x"
      by simp
    then have "(2 :: rat) powi (k + 1) \<le> 2 powi (ilog2 x)"
      by (intro power_int_increasing) simp_all
    with \<open>(2 :: rat) powi (ilog2 x) < 2 powi (k + 1)\<close> show False
      by simp
  qed
qed

lemma round64_close:
  assumes "0 < x" and "ilog2 x \<le> k" and "- 1022 \<le> k" and "k \<le> 1022"
  shows "\<exists>r. round64 x = Fin r \<and> 0 \<le> r \<and> \<bar>r - x\<bar> \<le> 2 powi (k - 53)"
proof -
  define e where "e = max (ilog2 x) (- 1022)"
  define u :: rat where "u = 2 powi (e - 52)"
  define r where "r = of_int (round_half_even (x / u)) * u"
  from assms(2,3) have "e - 52 \<le> k - 52"
    by (simp add: e_def)
  then have "u \<le> 2 powi (k - 52)"
    unfolding u_def by (intro power_int_increasing) simp_all
  also have "(2 :: rat) powi (k - 52) = 2 * 2 powi (k - 53)"
    using power_int_add_1' [of "2 :: rat" "k - 53"] by simp
  finally have uk: "u / 2 \<le> 2 powi (k - 53)"
    by simp
  have u0: "0 < u"
    by (simp add: u_def)
  have m0: "0 \<le> x / u"
    using assms(1) u0 by simp
  from round_half_even_bounds(1) [of "x / u"] u0
  have "r \<le> (x / u + 1 / 2) * u"
    unfolding r_def by (intro mult_right_mono) simp_all
  moreover have "(x / u + 1 / 2) * u = x + u / 2"
    using u0 by (simp add: distrib_right)
  ultimately have up: "r \<le> x + u / 2"
    by simp
  from round_half_even_bounds(2) [of "x / u"] u0
  have "(x / u - 1 / 2) * u \<le> r"
    unfolding r_def by (intro mult_right_mono) simp_all
  moreover have "(x / u - 1 / 2) * u = x - u / 2"
    using u0 by (simp add: left_diff_distrib)
  ultimately have lo: "x - u / 2 \<le> r"
    by simp
  from round_half_even_bounds(3) [OF m0] u0 have r0: "0 \<le> r"
    by (simp add: r_def)
  from up lo uk have close: "\<bar>r - x\<bar> \<le> 2 powi (k - 53)"
    by linarith
  from ilog2_correct [OF assms(1)] have "x < 2 powi (ilog2 x + 1)"
    by simp
  also from assms(2,4) have "(2 :: rat) powi (ilog2 x + 1) \<le> 2 powi 1023"
    by (intro power_int_increasing) simp_all
  finally have x1023: "x < 2 ^ 1023"
    by simp
  from assms(4) have "(2 :: rat) powi (k - 53) \<le> 2 powi 1023"
    by (intro power_int_increasing) simp_all
  then have "(2 :: rat) powi (k - 53) \<le> 2 ^ 1023"
    by simp
  with up uk x1023 have "r < 2 ^ 1023 + 2 ^ 1023"
    by linarith
  also have "(2 :: rat) ^ 1023 + 2 ^ 1023 = 2 ^ 1024"
    by simp
  finally have "\<not> 2 ^ 1024 \<le> r"
    by simp
  with assms(1) have "round64 x = Fin r"
    by (simp add: round64_def Let_def r_def u_def e_def)
  with r0 close show ?thesis
    by blast
qed

lemma ilog2_unique:
  assumes "2 powi e \<le> x" and "x < 2 powi (e + 1)"
  shows "ilog2 x = e"
proof -
  have x: "0 < x"
    using assms(1) by (rule less_le_trans [rotated]) simp
  from ilog2_le [OF x assms(2)] have "ilog2 x \<le> e" .
  moreover have "e \<le> ilog2 x"
  proof (rule ccontr)
    assume "\<not> e \<le> ilog2 x"
    then have "ilog2 x + 1 \<le> e"
      by simp
    then have "(2 :: rat) powi (ilog2 x + 1) \<le> 2 powi e"
      by (intro power_int_increasing) simp_all
    with ilog2_correct [OF x] assms(1) show False
      by simp
  qed
  ultimately show ?thesis
    by simp
qed

lemma round64_binade:
  assumes "2 powi e \<le> x" and "x < 2 powi (e + 1)" and "- 1022 \<le> e" and "e \<le> 1022"
  shows "round64 x = Fin (of_int (round_half_even (x / 2 powi (e - 52))) * 2 powi (e - 52))"
proof -
  have x: "0 < x"
    using assms(1) by (rule less_le_trans [rotated]) simp
  have e: "ilog2 x = e"
    using assms(1,2) by (rule ilog2_unique)
  then have "ilog2 x \<le> e"
    by simp
  from round64_close [OF x this assms(3,4)] obtain r where "round64 x = Fin r"
    by blast
  then show ?thesis
    using x e assms(3) by (simp add: round64_def Let_def split: if_splits)
qed

lemma floor_divide_numeral_rat:
  "\<lfloor>(numeral a / numeral b :: rat)\<rfloor> = numeral a div numeral b"
  using floor_divide_of_int_eq [of "numeral a" "numeral b", where ?'a = rat] by simp

text \<open>The facts that evaluate \<open>round64\<close> at a number whose binade is given.\<close>

lemmas round64_eval = round_half_even_def Let_def floor_divide_numeral_rat

lemma round64_small:
  assumes "0 < x" and "x \<le> 2 ^ 31 - 1"
  shows "\<exists>r. round64 x = Fin r \<and> 0 \<le> r \<and> r < 2 ^ 31 \<and> \<bar>r - x\<bar> \<le> 1 / 2 ^ 23"
proof -
  from assms(2) have "x < 2 powi (30 + 1)"
    by simp
  from ilog2_le [OF assms(1) this] have "ilog2 x \<le> 30" .
  from round64_close [OF assms(1) this] obtain r where
    r: "round64 x = Fin r" "0 \<le> r" "\<bar>r - x\<bar> \<le> 2 powi (30 - 53)"
    by auto
  from r(3) have c: "\<bar>r - x\<bar> \<le> 1 / 8388608"
    by (simp add: power_int_minus_divide)
  from assms(2) have "x \<le> 2147483647"
    by simp
  with c have "r < 2147483648"
    by linarith
  with r(1,2) c show ?thesis
    by auto
qed

lemma round64_unit:
  assumes "0 \<le> x" and "x \<le> 1"
  shows "\<exists>q. round64 x = Fin q \<and> 0 \<le> q \<and> q \<le> 1"
proof -
  consider "x = 0" | "x = 1" | "0 < x" "x < 1"
    using assms by linarith
  then show ?thesis
  proof cases
    case 1
    then show ?thesis
      by (simp add: round64_def)
  next
    case 2
    have "round64 1 = Fin 1"
      by (simp add: round64_binade [where e = 0] round64_eval)
    with 2 show ?thesis
      by simp
  next
    case 3
    define e where "e = max (ilog2 x) (- 1022)"
    define u :: rat where "u = 2 powi (e - 52)"
    define N :: int where "N = 2 ^ nat (52 - e)"
    define r where "r = of_int (round_half_even (x / u)) * u"
    from 3(2) have "x < 2 powi (- 1 + 1)"
      by simp
    from ilog2_le [OF 3(1) this] have e: "e \<le> - 1"
      by (simp add: e_def)
    have u0: "0 < u"
      by (simp add: u_def)
    have "u = 1 / 2 powi (52 - e)"
      using power_int_minus_divide [of "2 :: rat" "52 - e"] by (simp add: u_def)
    also from e have "(2 :: rat) powi (52 - e) = of_int N"
      by (simp add: N_def power_int_nonneg_exp)
    finally have uN: "u = 1 / of_int N" .
    have N0: "0 < N"
      by (simp add: N_def)
    from uN N0 have "x / u = x * of_int N"
      by simp
    also from 3(2) N0 have "x * of_int N < of_int N"
      by simp
    finally have "\<lfloor>x / u\<rfloor> < N"
      by (simp add: floor_less_iff)
    moreover have "round_half_even (x / u) \<le> \<lfloor>x / u\<rfloor> + 1"
      by (simp add: round_half_even_def Let_def)
    ultimately have "round_half_even (x / u) \<le> N"
      by simp
    then have "(of_int (round_half_even (x / u)) :: rat) \<le> of_int N"
      by (simp only: of_int_le_iff)
    with u0 have "r \<le> of_int N * u"
      unfolding r_def by (intro mult_right_mono) simp_all
    with uN N0 have r1: "r \<le> 1"
      by simp
    from 3(1) u0 have "0 \<le> x / u"
      by simp
    from round_half_even_bounds(3) [OF this] u0 have r0: "0 \<le> r"
      by (simp add: r_def)
    have "(1 :: rat) < 2 ^ 1024"
      by (rule one_less_power) simp_all
    with r1 have "\<not> 2 ^ 1024 \<le> r"
      by linarith
    with 3(1) have "round64 x = Fin r"
      by (simp add: round64_def Let_def r_def u_def e_def)
    with r0 r1 show ?thesis
      by blast
  qed
qed

lemma winprob_of_range:
  assumes "0 \<le> w" and "w \<le> n" and "0 < n"
  shows "\<exists>q. winprob_of w n = Fin q \<and> 0 \<le> q \<and> q \<le> 1"
proof -
  from assms have "0 \<le> (of_int w / of_int n :: rat)" "(of_int w / of_int n :: rat) \<le> 1"
    by simp_all
  from round64_unit [OF this] assms(3) show ?thesis
    by (simp add: winprob_of_def d_of_int_def)
qed

lemma round64_of_int:
  assumes "\<bar>i\<bar> < 2 ^ 53"
  shows "round64 (of_int i) = Fin (of_int i)"
proof (cases "i = 0")
  case True
  then show ?thesis
    by (simp add: round64_def)
next
  case False
  define a :: rat where "a = \<bar>of_int i\<bar>"
  define e where "e = ilog2 a"
  define u :: rat where "u = 2 powi (e - 52)"
  from False have a1: "1 \<le> a"
    unfolding a_def by (simp flip: of_int_abs)
  then have a0: "0 < a"
    by simp
  from assms have "(of_int \<bar>i\<bar> :: rat) < of_int (2 ^ 53)"
    by (simp only: of_int_less_iff)
  then have a53: "a < 2 powi (52 + 1)"
    by (simp add: a_def)
  from ilog2_le [OF a0 a53] have e52: "e \<le> 52"
    by (simp add: e_def)
  from ilog2_correct [OF a0] a1 have "(1 :: rat) < 2 powi (e + 1)"
    by (simp add: e_def)
  have e0: "0 \<le> e"
  proof (rule ccontr)
    assume "\<not> 0 \<le> e"
    then have "e + 1 \<le> 0"
      by simp
    then have "(2 :: rat) powi (e + 1) \<le> 2 powi 0"
      by (intro power_int_increasing) simp_all
    with \<open>(1 :: rat) < 2 powi (e + 1)\<close> show False
      by simp
  qed
  define N :: int where "N = 2 ^ nat (52 - e)"
  have "u = 1 / 2 powi (52 - e)"
    using power_int_minus_divide [of "2 :: rat" "52 - e"] by (simp add: u_def)
  also from e52 have "(2 :: rat) powi (52 - e) = of_int N"
    by (simp add: N_def power_int_nonneg_exp)
  finally have uN: "u = 1 / of_int N" .
  have N0: "0 < N"
    by (simp add: N_def)
  have "a / u = of_int (\<bar>i\<bar> * N)"
    using uN N0 by (simp add: a_def)
  then have "round_half_even (a / u) = \<bar>i\<bar> * N"
    by (simp only: round_half_even_of_int)
  then have r: "of_int (round_half_even (a / u)) * u = a"
    using uN N0 by (simp add: a_def)
  from a53 have "a < 2 ^ 53"
    by simp
  moreover have "(2 :: rat) ^ 53 \<le> 2 ^ 1024"
    by (rule power_increasing) simp_all
  ultimately have "\<not> 2 ^ 1024 \<le> a"
    by linarith
  moreover from e0 have "max e (- 1022) = e"
    by simp
  ultimately have "round64 (of_int i) = Fin (if (of_int i :: rat) < 0 then - a else a)"
    using False r [unfolded u_def]
    unfolding round64_def Let_def a_def [symmetric] e_def [symmetric]
    by simp
  then show ?thesis
    by (simp add: a_def)
qed

lemma d_of_int_exact:
  assumes "INT_MIN \<le> i" and "i \<le> INT_MAX"
  shows "round64 (of_int i) = d_of_int i"
proof -
  from assms have "\<bar>i\<bar> < 2 ^ 53"
    by (simp add: INT_MIN_def INT_MAX_def)
  then show ?thesis
    unfolding d_of_int_def by (rule round64_of_int)
qed

lemma round64_unit_close:
  assumes "0 < x" and "x \<le> 1"
  shows "\<exists>r. round64 x = Fin r \<and> \<bar>r - x\<bar> \<le> 1 / 2 ^ 53"
proof -
  from assms have "x < 2 powi (0 + 1)"
    by simp
  from ilog2_le [OF assms(1) this] have "ilog2 x \<le> 0" .
  from round64_close [OF assms(1) this] show ?thesis
    by (auto simp add: power_int_minus_divide)
qed

text \<open>The comparison with \<open>1 / d\<close>, for \<open>d\<close> = 2 or 4, is exact on quotients of tallies.\<close>

lemma winprob_of_gt:
  assumes "0 \<le> w" and "w \<le> n" and "0 < n" and "n \<le> INT_MAX"
    and d: "d = 2 \<or> d = 4"
  shows "dgt (winprob_of w n) (Fin (1 / of_int d)) \<longleftrightarrow> n < d * w"
proof (cases "w = 0")
  case True
  with assms show ?thesis
    by (auto simp add: winprob_of_def d_of_int_def round64_def)
next
  case False
  define x :: rat where "x = of_int w / of_int n"
  define eps :: rat where "eps = 1 / 2 ^ 53"
  define gap :: rat where "gap = 1 / 2 ^ 33"
  define t :: rat where "t = 1 / of_int d"
  have eg: "eps < gap"
    by (simp add: eps_def gap_def)
  from False assms have x: "0 < x" "x \<le> 1"
    by (simp_all add: x_def)
  from round64_unit_close [OF x] obtain r where
    r: "round64 x = Fin r" "\<bar>r - x\<bar> \<le> eps"
    unfolding eps_def by blast
  from assms(3) r(1) have wp: "winprob_of w n = Fin r"
    by (simp add: winprob_of_def d_of_int_def x_def)
  have d0: "0 < d"
    using d by auto
  have dn: "(of_int (d * n) :: rat) \<le> 2 ^ 33" "(0 :: rat) < of_int (d * n)"
  proof -
    from assms(4) d have "d * n \<le> 2 ^ 33"
      by (auto simp add: INT_MAX_def)
    then have "(of_int (d * n) :: rat) \<le> of_int (2 ^ 33)"
      by (simp only: of_int_le_iff)
    then show "(of_int (d * n) :: rat) \<le> 2 ^ 33"
      by simp
    from assms(3) d0 show "(0 :: rat) < of_int (d * n)"
      by simp
  qed
  have g: "gap \<le> 1 / (of_int (d * n) :: rat)"
    unfolding gap_def using dn by (intro divide_left_mono) simp_all
  have step: "gap \<le> (of_int m :: rat) / of_int (d * n)" if "1 \<le> m" for m :: int
  proof -
    from that have "(1 :: rat) \<le> of_int m"
      by (simp only: of_int_1_le_iff)
    with dn(2) have "1 / of_int (d * n) \<le> (of_int m :: rat) / of_int (d * n)"
      by (intro divide_right_mono) simp_all
    with g show ?thesis
      by (rule order_trans)
  qed
  have diff: "x - t = of_int (d * w - n) / of_int (d * n)"
    using assms(3) d0 by (simp add: x_def t_def field_simps)
  have diff': "t - x = of_int (n - d * w) / of_int (d * n)"
    using assms(3) d0 by (simp add: x_def t_def field_simps)
  consider "n < d * w" | "d * w = n" | "d * w < n"
    by linarith
  then have "t < r \<longleftrightarrow> n < d * w"
  proof cases
    case 1
    then have "gap \<le> x - t"
      unfolding diff by (intro step) simp
    with r(2) eg have "t < r"
      by linarith
    with 1 show ?thesis
      by simp
  next
    case 2
    then have "of_int d * of_int w = (of_int n :: rat)"
      by (simp flip: of_int_mult)
    with assms(3) d0 have "x = t"
      by (simp add: x_def t_def field_simps)
    have "round64 (1 / 2) = Fin (1 / 2)" "round64 (1 / 4) = Fin (1 / 4)"
      by (simp_all add: round64_binade [where e = "- 1"] round64_binade [where e = "- 2"]
          round64_eval)
    with d \<open>x = t\<close> r(1) have "r = t"
      by (auto simp add: t_def)
    with 2 show ?thesis
      by simp
  next
    case 3
    then have "gap \<le> t - x"
      unfolding diff' by (intro step) simp
    with r(2) eg have "r < t"
      by linarith
    with 3 show ?thesis
      by simp
  qed
  with wp show ?thesis
    by (simp add: t_def)
qed

section \<open>Properties of the decision\<close>

lemma d_to_int_small: "0 \<le> r \<Longrightarrow> r < 2 ^ 31 \<Longrightarrow> d_to_int (Fin r) = Inr \<lfloor>r\<rfloor>"
proof -
  assume r: "0 \<le> r" "r < 2 ^ 31"
  then have "0 \<le> \<lfloor>r\<rfloor>" "\<lfloor>r\<rfloor> < 2 ^ 31"
    by (simp_all add: floor_less_iff)
  with r show ?thesis
    by (simp add: INT_MIN_def INT_MAX_def)
qed

lemma dmul_stack:
  assumes "0 \<le> q" and "q \<le> 1" and "0 \<le> stk" and "stk \<le> INT_MAX"
  shows "\<exists>r. dmul (d_of_int stk) (Fin q) = Fin r \<and> 0 \<le> r \<and> r < 2 ^ 31 \<and>
             \<bar>r - of_int stk * q\<bar> \<le> 1 / 2 ^ 23"
proof (cases "of_int stk * q = 0")
  case True
  then have "dmul (d_of_int stk) (Fin q) = Fin 0"
    by (simp add: d_of_int_def round64_def)
  moreover have "\<bar>0 - of_int stk * q\<bar> \<le> 1 / 2 ^ 23"
    unfolding True by simp
  ultimately show ?thesis
    by (intro exI [of _ 0]) simp
next
  case False
  with assms have pos: "0 < of_int stk * q"
    by (simp add: zero_less_mult_iff less_le)
  from assms have "of_int stk * q \<le> of_int stk * 1"
    by (intro mult_left_mono) simp_all
  also from assms(4) have "of_int stk * 1 \<le> (2 ^ 31 - 1 :: rat)"
    by (simp add: INT_MAX_def)
  finally have "of_int stk * q \<le> 2 ^ 31 - 1" .
  from round64_small [OF pos this] show ?thesis
    by (simp add: d_of_int_def)
qed

lemma floor_product_le_stack:
  fixes q r :: rat
  assumes "q \<le> 1" and "0 \<le> stk" and "\<bar>r - of_int stk * q\<bar> \<le> 1 / 2 ^ 23"
  shows "\<lfloor>r\<rfloor> \<le> stk"
proof -
  from assms(1,2) have "of_int stk * q \<le> of_int stk * 1"
    by (intro mult_left_mono) simp_all
  moreover have "(1 :: rat) / 2 ^ 23 < 1"
    by simp
  ultimately have "r < of_int stk + 1"
    using assms(3) by linarith
  then have "r < of_int (stk + 1)"
    by simp
  then have "\<lfloor>r\<rfloor> < stk + 1"
    by (simp only: floor_less_iff)
  then show ?thesis
    by simp
qed

lemma join_workers_action:
  "join_workers fuel K H T R threads ai = Inr ai' \<Longrightarrow>
   action ai' = action ai \<and> game ai' = game ai"
proof (induction threads arbitrary: ai)
  case Nil
  then show ?case
    by simp
next
  case (Cons i threads)
  from Cons.prems obtain s ai1 where
    w: "SimulateGames fuel K H (T i) (R i) ai = Inr (s, ai1)" and
    j: "join_workers fuel K H T R threads ai1 = Inr ai'"
    by (cases "SimulateGames fuel K H (T i) (R i) ai") auto
  from w have "action ai1 = action ai \<and> game ai1 = game ai"
    by (auto simp add: SimulateGames_def split: sum.splits if_splits)
  with Cons.IH [OF j] show ?case
    by simp
qed

text \<open>
  C1 (as amended). The win probability that the aggregation computes from tallies with
  \<open>0 \<le> games_won \<le> games_simulated\<close> and \<open>0 < games_simulated\<close> is a finite number
  \<open>p\<close> with \<open>0 \<le> p \<le> 1\<close>. For a probability \<open>p > 0.5\<close> and a stack that is not
  negative the policy returns a bet whose amount is the floor of \<open>stack \<times> p\<close>, the
  product being the one the code computes, in double precision (it is within
  \<open>2\<^sup>-\<^sup>2\<^sup>3\<close> of the exact product), and the amount is between 0 and the stack; for \<open>0.25 < p \<le> 0.5\<close> it returns a call, so for
  \<open>p = 0.5\<close>; for \<open>p \<le> 0.25\<close> it returns a fold, so for \<open>p = 0.25\<close> and for
  \<open>p = 0\<close>; and for \<open>p = 1\<close> and a stack of 100 it returns a bet of 100.
\<close>

theorem decide_thresholds:
  "(0 \<le> w \<and> w \<le> n \<and> 0 < n \<longrightarrow> (\<exists>p. winprob_of w n = Fin p \<and> 0 \<le> p \<and> p \<le> 1)) \<and>
   (1 / 2 < q \<and> q \<le> 1 \<and> 0 \<le> stk \<and> stk \<le> INT_MAX \<longrightarrow>
      (\<exists>r. dmul (d_of_int stk) (Fin q) = Fin r \<and> \<bar>r - of_int stk * q\<bar> \<le> 1 / 2 ^ 23 \<and>
           0 \<le> \<lfloor>r\<rfloor> \<and> \<lfloor>r\<rfloor> \<le> stk \<and>
           decide a stk (Fin q) = Inr (a\<lparr>type := BET, amount := \<lfloor>r\<rfloor>\<rparr>))) \<and>
   (1 / 4 < q \<and> q \<le> 1 / 2 \<longrightarrow> decide a stk (Fin q) = Inr (a\<lparr>type := CALL\<rparr>)) \<and>
   (q \<le> 1 / 4 \<longrightarrow> decide a stk (Fin q) = Inr (a\<lparr>type := FOLD\<rparr>)) \<and>
   decide a stk (Fin (1 / 2)) = Inr (a\<lparr>type := CALL\<rparr>) \<and>
   decide a stk (Fin (1 / 4)) = Inr (a\<lparr>type := FOLD\<rparr>) \<and>
   decide a stk (Fin 0) = Inr (a\<lparr>type := FOLD\<rparr>) \<and>
   decide a 100 (Fin 1) = Inr (a\<lparr>type := BET, amount := 100\<rparr>)"
proof -
  have bet: "\<exists>r. dmul (d_of_int stk) (Fin q) = Fin r \<and> \<bar>r - of_int stk * q\<bar> \<le> 1 / 2 ^ 23 \<and>
      0 \<le> \<lfloor>r\<rfloor> \<and> \<lfloor>r\<rfloor> \<le> stk \<and>
      decide a stk (Fin q) = Inr (a\<lparr>type := BET, amount := \<lfloor>r\<rfloor>\<rparr>)"
    if "1 / 2 < q" "q \<le> 1" "0 \<le> stk" "stk \<le> INT_MAX"
  proof -
    from that have "0 \<le> q"
      by simp
    from dmul_stack [OF this that(2,3,4)] obtain r where
      r: "dmul (d_of_int stk) (Fin q) = Fin r" "0 \<le> r" "r < 2 ^ 31"
        "\<bar>r - of_int stk * q\<bar> \<le> 1 / 2 ^ 23"
      by blast
    from r(2,3) have "d_to_int (Fin r) = Inr \<lfloor>r\<rfloor>"
      by (rule d_to_int_small)
    with r that(1) have "decide a stk (Fin q) = Inr (a\<lparr>type := BET, amount := \<lfloor>r\<rfloor>\<rparr>)"
      by (simp add: decide_def)
    moreover from r(2) have "0 \<le> \<lfloor>r\<rfloor>"
      by simp
    moreover from that(2,3) r(4) have "\<lfloor>r\<rfloor> \<le> stk"
      by (rule floor_product_le_stack)
    ultimately show ?thesis
      using r by blast
  qed
  have hundred: "dmul (d_of_int 100) (Fin 1) = Fin 100"
    by (simp add: d_of_int_def round64_binade [where e = 6] round64_eval)
  have "d_to_int (Fin 100) = Inr 100"
    by (simp add: INT_MIN_def INT_MAX_def)
  with hundred have "decide a 100 (Fin 1) = Inr (a\<lparr>type := BET, amount := 100\<rparr>)"
    by (simp add: decide_def)
  moreover have "decide a stk (Fin q) = Inr (a\<lparr>type := CALL\<rparr>)" if "1 / 4 < q" "q \<le> 1 / 2" for q
    using that by (simp add: decide_def)
  moreover have "decide a stk (Fin q) = Inr (a\<lparr>type := FOLD\<rparr>)" if "q \<le> 1 / 4" for q
    using that by (simp add: decide_def)
  moreover have "\<exists>p. winprob_of w n = Fin p \<and> 0 \<le> p \<and> p \<le> 1" if "0 \<le> w" "w \<le> n" "0 < n"
    using that by (rule winprob_of_range)
  ultimately show ?thesis
    using bet by simp
qed

theorem decide_thresholds_witness:
  "winprob_of 3 4 = Fin (3 / 4) \<and>
   decide \<lparr>type = ACTION_UNSET, amount = 0, string = []\<rparr> 100 (Fin (3 / 4))
     = Inr \<lparr>type = BET, amount = 75, string = []\<rparr> \<and>
   decide \<lparr>type = ACTION_UNSET, amount = 0, string = []\<rparr> 100 (Fin (1 / 3))
     = Inr \<lparr>type = CALL, amount = 0, string = []\<rparr> \<and>
   decide \<lparr>type = ACTION_UNSET, amount = 0, string = []\<rparr> 100 (Fin (1 / 5))
     = Inr \<lparr>type = FOLD, amount = 0, string = []\<rparr>"
proof -
  let ?a = "\<lparr>type = ACTION_UNSET, amount = 0, string = []\<rparr>"
  have p: "winprob_of 3 4 = Fin (3 / 4)"
    by (simp add: winprob_of_def d_of_int_def round64_binade [where e = "- 1"] round64_eval)
  have m: "dmul (d_of_int 100) (Fin (3 / 4)) = Fin 75"
    by (simp add: d_of_int_def round64_binade [where e = 6] round64_eval)
  from decide_thresholds [where q = "3 / 4" and stk = 100 and a = ?a and w = 3 and n = 4] m
  have "decide ?a 100 (Fin (3 / 4)) = Inr \<lparr>type = BET, amount = 75, string = []\<rparr>"
    by (simp add: INT_MAX_def)
  moreover from decide_thresholds [where q = "1 / 3" and stk = 100 and a = ?a]
  have "decide ?a 100 (Fin (1 / 3)) = Inr \<lparr>type = CALL, amount = 0, string = []\<rparr>"
    by simp
  moreover from decide_thresholds [where q = "1 / 5" and stk = 100 and a = ?a]
  have "decide ?a 100 (Fin (1 / 5)) = Inr \<lparr>type = FOLD, amount = 0, string = []\<rparr>"
    by simp
  ultimately show ?thesis
    using p by simp
qed

text \<open>
  The amount is not the floor of the exact product: two games won of three (2000 of
  3000) give the double nearest to \<open>2 / 3\<close>, which is below \<open>2 / 3\<close>; with a stack of 3
  the exact product is below 2 and its floor is 1, but the double product is 2 and so
  is the bet.
\<close>

theorem decide_thresholds_counterexample:
  "winprob_of 2000 3000 = Fin (6004799503160661 / 9007199254740992) \<and>
   1 / 2 < (6004799503160661 / 9007199254740992 :: rat) \<and>
   decide \<lparr>type = ACTION_UNSET, amount = 0, string = []\<rparr> 3
       (Fin (6004799503160661 / 9007199254740992))
     = Inr \<lparr>type = BET, amount = 2, string = []\<rparr> \<and>
   \<lfloor>3 * (6004799503160661 / 9007199254740992 :: rat)\<rfloor> = 1"
proof -
  have q: "round64 (2 / 3) = Fin (6004799503160661 / 9007199254740992)"
    by (simp add: round64_binade [where e = "- 1"] round64_eval)
  then have p: "winprob_of 2000 3000 = Fin (6004799503160661 / 9007199254740992)"
    by (simp add: winprob_of_def d_of_int_def)
  have m: "round64 (18014398509481983 / 9007199254740992) = Fin 2"
    by (simp add: round64_binade [where e = 0] round64_eval)
  have d: "decide \<lparr>type = ACTION_UNSET, amount = 0, string = []\<rparr> 3
             (Fin (6004799503160661 / 9007199254740992))
           = Inr \<lparr>type = BET, amount = 2, string = []\<rparr>"
    by (simp add: decide_def d_of_int_def m INT_MIN_def INT_MAX_def)
  have f: "\<lfloor>3 * (6004799503160661 / 9007199254740992 :: rat)\<rfloor> = 1"
    by (simp add: floor_divide_numeral_rat)
  show ?thesis
    using p d f by simp
qed

text \<open>
  C3 (as amended). When the totals after all workers have finished have
  \<open>games_simulated = 0\<close>, \<open>games_won\<close> is 0 as well, and the quotient of line 193
  is \<open>0.0 / 0.0\<close>: a NaN, not 0. Nothing is raised. A NaN is greater than neither
  threshold, so the action is a fold, encoded \<open>action_name=fold\<close>.
\<close>

theorem GetBestAction_no_games:
  assumes "SpawnMonteCarloThreads fuel K H T R (ai\<lparr>games_won := 0, games_simulated := 0\<rparr>) = Inr ai1"
    and "games_simulated ai1 = 0"
  shows "games_won ai1 = 0 \<and>
         winprob_of (games_won ai1) (games_simulated ai1) = NaN \<and>
         \<not> dgt NaN (Fin (1 / 2)) \<and> \<not> dgt NaN (Fin (1 / 4)) \<and>
         GetBestAction fuel K H T R ai
           = Inr (ai1\<lparr>action := (action ai)\<lparr>type := FOLD, string := ''action_name=fold''\<rparr>\<rparr>,
                  ''action_name=fold'')"
proof -
  from assms(1) have j: "join_workers fuel K H T R [0 ..< nat (num_threads ai)]
      (ai\<lparr>games_won := 0, games_simulated := 0\<rparr>) = Inr ai1"
    by (simp add: SpawnMonteCarloThreads_def)
  from join_workers_tally [OF j] assms(2) have w: "games_won ai1 = 0"
    by simp
  from join_workers_action [OF j] have a: "action ai1 = action ai"
    by simp
  have n: "winprob_of 0 0 = NaN"
    by (simp add: winprob_of_def d_of_int_def)
  have "decide (action ai) (stack (game ai1)) NaN = Inr ((action ai)\<lparr>type := FOLD\<rparr>)"
    by (simp add: decide_def)
  with assms w a n show ?thesis
    by (simp add: GetBestAction_def ActionGetString_def Let_def)
qed

theorem GetBestAction_no_games_witness:
  "GetBestAction 1 texas (sum_score 1000) (\<lambda>i n. 5) (\<lambda>i j k. 0) ai0
     = Inr (ai0\<lparr>action := \<lparr>type = FOLD, amount = 0, string = ''action_name=fold''\<rparr>\<rparr>,
            ''action_name=fold'')"
proof -
  have "SpawnMonteCarloThreads 1 texas (sum_score 1000) (\<lambda>i n. 5) (\<lambda>i j k. 0)
          (ai0\<lparr>games_won := 0, games_simulated := 0\<rparr>) = Inr ai0"
    by (simp add: SpawnMonteCarloThreads_def SimulateGames_def SimulateGames_loop.simps
        ai0_def upt_rec INT_MAX_def)
  from GetBestAction_no_games [OF this] show ?thesis
    by (simp add: ai0_def)
qed

text \<open>With both totals 0 the win probability is a NaN, which is not the number 0.\<close>

theorem GetBestAction_no_games_counterexample:
  "winprob_of 0 0 = NaN \<and> winprob_of 0 0 \<noteq> Fin 0"
  by (simp add: winprob_of_def d_of_int_def)

text \<open>
  X1. The decision in terms of the tallies. For totals with \<open>0 \<le> games_won \<le>
  games_simulated\<close> and \<open>0 < games_simulated\<close>, and a stack that is not negative, the
  comparisons of the rounded quotient with 0.5 and 0.25 are exact: the action is a bet
  when \<open>games_simulated < 2 * games_won\<close>, a call when not but
  \<open>games_simulated < 4 * games_won\<close>, and a fold otherwise; and a call and a fold leave
  the amount as it was. The amount of a bet is computed in double precision: 57 games
  won of 100 and a stack of 100 give a bet of 56.
\<close>

theorem decide_by_tallies:
  assumes "0 \<le> w" and "w \<le> n" and "0 < n" and "n \<le> INT_MAX"
    and "0 \<le> stk" and "stk \<le> INT_MAX"
  shows "\<exists>a'. decide a stk (winprob_of w n) = Inr a' \<and>
           type a' = (if n < 2 * w then BET else if n < 4 * w then CALL else FOLD) \<and>
           (\<not> n < 2 * w \<longrightarrow> amount a' = amount a)"
proof -
  from winprob_of_range [OF assms(1,2,3)] obtain p where
    p: "winprob_of w n = Fin p" "0 \<le> p" "p \<le> 1"
    by blast
  from winprob_of_gt [OF assms(1,2,3,4), of 2] p(1) have h: "1 / 2 < p \<longleftrightarrow> n < 2 * w"
    by simp
  from winprob_of_gt [OF assms(1,2,3,4), of 4] p(1) have q: "1 / 4 < p \<longleftrightarrow> n < 4 * w"
    by simp
  show ?thesis
  proof (cases "n < 2 * w")
    case True
    from dmul_stack [OF p(2,3) assms(5,6)] obtain r where
      r: "dmul (d_of_int stk) (Fin p) = Fin r" "0 \<le> r" "r < 2 ^ 31"
      by blast
    from r(2,3) have "d_to_int (Fin r) = Inr \<lfloor>r\<rfloor>"
      by (rule d_to_int_small)
    with True h r(1) p(1) show ?thesis
      by (simp add: decide_def)
  next
    case False
    with h q p(1) show ?thesis
      by (simp add: decide_def)
  qed
qed

theorem decide_by_tallies_witness:
  "decide \<lparr>type = ACTION_UNSET, amount = 0, string = []\<rparr> 100 (winprob_of 57 100)
     = Inr \<lparr>type = BET, amount = 56, string = []\<rparr> \<and>
   decide \<lparr>type = ACTION_UNSET, amount = 0, string = []\<rparr> 100 (winprob_of 50 100)
     = Inr \<lparr>type = CALL, amount = 0, string = []\<rparr> \<and>
   decide \<lparr>type = ACTION_UNSET, amount = 0, string = []\<rparr> 100 (winprob_of 25 100)
     = Inr \<lparr>type = FOLD, amount = 0, string = []\<rparr>"
proof -
  let ?a = "\<lparr>type = ACTION_UNSET, amount = 0, string = []\<rparr>"
  have q: "round64 (57 / 100) = Fin (5134103575202365 / 9007199254740992)"
    by (simp add: round64_binade [where e = "- 1"] round64_eval)
  have m: "round64 (128352589380059125 / 2251799813685248)
             = Fin (8022036836253695 / 140737488355328)"
    by (simp add: round64_binade [where e = 5] round64_eval)
  have b: "d_to_int (dmul (d_of_int 100) (winprob_of 57 100)) = Inr 56"
    by (simp add: winprob_of_def d_of_int_def q m INT_MIN_def INT_MAX_def
        floor_divide_numeral_rat)
  from decide_by_tallies [of 57 100 100 ?a] obtain a1 where
    a1: "decide ?a 100 (winprob_of 57 100) = Inr a1" "type a1 = BET"
    by (auto simp add: INT_MAX_def)
  from decide_by_tallies [of 50 100 100 ?a] obtain a2 where
    a2: "decide ?a 100 (winprob_of 50 100) = Inr a2" "type a2 = CALL" "amount a2 = 0"
    by (auto simp add: INT_MAX_def)
  from decide_by_tallies [of 25 100 100 ?a] obtain a3 where
    a3: "decide ?a 100 (winprob_of 25 100) = Inr a3" "type a3 = FOLD" "amount a3 = 0"
    by (auto simp add: INT_MAX_def)
  from a1 b have "a1 = \<lparr>type = BET, amount = 56, string = []\<rparr>"
    by (auto simp add: decide_def split: if_splits)
  moreover from a2 have "a2 = \<lparr>type = CALL, amount = 0, string = []\<rparr>"
    by (auto simp add: decide_def split: if_splits sum.splits)
  moreover from a3 have "a3 = \<lparr>type = FOLD, amount = 0, string = []\<rparr>"
    by (auto simp add: decide_def split: if_splits sum.splits)
  ultimately show ?thesis
    using a1 a2 a3 by simp
qed

end
